theory Spec2Isabelle
  imports Main "HOL-Library.Word"
begin

section \<open>Bytes, file objects and \<open>struct.unpack\<close>\<close>

text \<open>
  Both decoders work on a Python binary file object: a byte string with a cursor.
  \<open>seek\<close> to an absolute offset always succeeds (also past the end), \<open>read n\<close>
  returns at most \<open>n\<close> bytes, fewer when the end of the file is reached, and moves
  the cursor by the number of bytes returned. \<open>struct.unpack\<close> raises
  \<open>struct.error\<close> when the buffer does not have exactly the size of the format.
\<close>

type_synonym byte = "8 word"

record pyfile =
  content :: "byte list"
  pos :: nat

definition seek :: "nat \<Rightarrow> pyfile \<Rightarrow> pyfile" where
  "seek off f = f\<lparr>pos := off\<rparr>"

text \<open>\<open>file_.seek(0, 2)\<close>: to the end of the file.\<close>

definition seek_end :: "pyfile \<Rightarrow> pyfile" where
  "seek_end f = f\<lparr>pos := length (content f)\<rparr>"

definition tell :: "pyfile \<Rightarrow> nat" where
  "tell f = pos f"

definition read_bytes :: "nat \<Rightarrow> pyfile \<Rightarrow> byte list" where
  "read_bytes n f = take n (drop (pos f) (content f))"

definition read :: "nat \<Rightarrow> pyfile \<Rightarrow> byte list \<times> pyfile" where
  "read n f = (read_bytes n f, f\<lparr>pos := pos f + length (read_bytes n f)\<rparr>)"

datatype error =
    StructError             \<comment> \<open>\<open>struct.error\<close>: buffer shorter than the format\<close>
  | InvalidLiteral          \<comment> \<open>\<open>ValueError\<close> of \<open>int()\<close>\<close>
  | UnsupportedVersion int  \<comment> \<open>\<open>ValueError('Unsupported file version ...')\<close>\<close>
  | DateError               \<comment> \<open>\<open>ValueError\<close> of \<open>time.strptime\<close>\<close>
  | KeyError string
  | TypeError

text \<open>Big-endian and little-endian unsigned values of a byte string.\<close>

fun be_nat :: "byte list \<Rightarrow> nat" where
  "be_nat [] = 0"
| "be_nat (b # bs) = unat b * 256 ^ length bs + be_nat bs"

fun le_nat :: "byte list \<Rightarrow> nat" where
  "le_nat [] = 0"
| "le_nat (b # bs) = unat b + 256 * le_nat bs"

text \<open>Formats \<open>'>B'\<close>, \<open>'>BB'\<close>, \<open>'>H'\<close>, \<open>'>h'\<close>, \<open>'>i'\<close>, \<open>'>d'\<close>, \<open>'>f'\<close>; and
  \<open>'<d'\<close>, numpy's item type.\<close>

definition unpack_B :: "byte list \<Rightarrow> error + nat" where
  "unpack_B bs = (if length bs = 1 then Inr (be_nat bs) else Inl StructError)"

definition unpack_BB :: "byte list \<Rightarrow> error + nat \<times> nat" where
  "unpack_BB bs = (case bs of [a, b] \<Rightarrow> Inr (unat a, unat b) | _ \<Rightarrow> Inl StructError)"

definition unpack_H :: "byte list \<Rightarrow> error + nat" where
  "unpack_H bs = (if length bs = 2 then Inr (be_nat bs) else Inl StructError)"

definition unpack_h :: "byte list \<Rightarrow> error + int" where
  "unpack_h bs = (if length bs = 2 then Inr (sint (word_of_nat (be_nat bs) :: 16 word))
                  else Inl StructError)"

definition unpack_i :: "byte list \<Rightarrow> error + int" where
  "unpack_i bs = (if length bs = 4 then Inr (sint (word_of_nat (be_nat bs) :: 32 word))
                  else Inl StructError)"

section \<open>Floating point: IEEE 754 binary64\<close>

text \<open>
  A Python \<open>float\<close> and a numpy \<open>float64\<close> are IEEE 754 binary64 values, and
  \<open>*\<close>, \<open>+\<close>, \<open>-\<close>, \<open>/\<close> round to nearest, ties to even. A value is modelled as
  its 64-bit pattern: sign, 11 bits of biased exponent, 52 bits of fraction. The
  operations decode their arguments to \<open>(-1)^s * m * 2^e\<close>, compute exactly on integers
  and round once. Every NaN result is the one quiet NaN \<open>f64_nan\<close>: payloads are not
  modelled.
\<close>

type_synonym float64 = "64 word"

datatype fclass = FNaN | FInf bool | FFin bool nat int

definition f64_sign :: "float64 \<Rightarrow> bool" where
  "f64_sign w = (2 ^ 63 \<le> unat w)"

definition f64_expo :: "float64 \<Rightarrow> nat" where
  "f64_expo w = (unat w div 2 ^ 52) mod 2048"

definition f64_frac :: "float64 \<Rightarrow> nat" where
  "f64_frac w = unat w mod 2 ^ 52"

definition f64_decode :: "float64 \<Rightarrow> fclass" where
  "f64_decode w =
     (if f64_expo w = 2047 then (if f64_frac w = 0 then FInf (f64_sign w) else FNaN)
      else if f64_expo w = 0 then FFin (f64_sign w) (f64_frac w) (- 1074)
      else FFin (f64_sign w) (2 ^ 52 + f64_frac w) (int (f64_expo w) - 1075))"

definition f64_signbit :: "bool \<Rightarrow> nat" where
  "f64_signbit s = (if s then 2 ^ 63 else 0)"

definition f64_nan :: float64 where
  "f64_nan = word_of_nat (2047 * 2 ^ 52 + 2 ^ 51)"

definition f64_inf :: "bool \<Rightarrow> float64" where
  "f64_inf s = word_of_nat (f64_signbit s + 2047 * 2 ^ 52)"

definition f64_zero :: "bool \<Rightarrow> float64" where
  "f64_zero s = word_of_nat (f64_signbit s)"

text \<open>Number of binary digits of a natural number.\<close>

fun bitlen :: "nat \<Rightarrow> nat" where
  "bitlen n = (if n = 0 then 0 else Suc (bitlen (n div 2)))"

declare bitlen.simps [simp del]

text \<open>
  \<open>f64_round s m e\<close> is the binary64 value nearest to \<open>(-1)^s * m * 2^e\<close>, ties to
  even, infinite on overflow. \<open>e'\<close> is the exponent of the last kept bit: 53 bits are
  kept, fewer in the subnormal range. Adding the kept bits \<open>q\<close> to the exponent field
  carries into the exponent when rounding up reaches the next power of two.
\<close>

definition f64_round :: "bool \<Rightarrow> nat \<Rightarrow> int \<Rightarrow> float64" where
  "f64_round s m e =
     (if m = 0 then f64_zero s
      else let e' = max (e + int (bitlen m) - 53) (- 1074);
               q = (if e' \<le> e then m * 2 ^ nat (e - e')
                    else let d = nat (e' - e); t = m div 2 ^ d; r = m mod 2 ^ d;
                             h = 2 ^ (d - 1)
                         in if h < r \<or> (r = h \<and> odd t) then t + 1 else t);
               bits = nat (e' + 1074) * 2 ^ 52 + q
           in if 2047 * 2 ^ 52 \<le> bits then f64_inf s
              else word_of_nat (f64_signbit s + bits))"

definition f64_of_int :: "int \<Rightarrow> float64" where
  "f64_of_int i = f64_round (i < 0) (nat \<bar>i\<bar>) 0"

definition fneg :: "float64 \<Rightarrow> float64" where
  "fneg a = (if f64_sign a then a - 2 ^ 63 else a + 2 ^ 63)"

definition fmul :: "float64 \<Rightarrow> float64 \<Rightarrow> float64" where
  "fmul a b =
     (case f64_decode a of
        FNaN \<Rightarrow> f64_nan
      | FInf s \<Rightarrow>
          (case f64_decode b of
             FNaN \<Rightarrow> f64_nan
           | FInf t \<Rightarrow> f64_inf (s \<noteq> t)
           | FFin t n k \<Rightarrow> if n = 0 then f64_nan else f64_inf (s \<noteq> t))
      | FFin s m e \<Rightarrow>
          (case f64_decode b of
             FNaN \<Rightarrow> f64_nan
           | FInf t \<Rightarrow> if m = 0 then f64_nan else f64_inf (s \<noteq> t)
           | FFin t n k \<Rightarrow> f64_round (s \<noteq> t) (m * n) (e + k)))"

text \<open>The signed integer \<open>(-1)^s * m * 2^(e - c)\<close>, for \<open>c \<le> e\<close>.\<close>

definition f64_scaled :: "bool \<Rightarrow> nat \<Rightarrow> int \<Rightarrow> int \<Rightarrow> int" where
  "f64_scaled s m e c = (if s then - 1 else 1) * int m * 2 ^ nat (e - c)"

definition fadd :: "float64 \<Rightarrow> float64 \<Rightarrow> float64" where
  "fadd a b =
     (case f64_decode a of
        FNaN \<Rightarrow> f64_nan
      | FInf s \<Rightarrow>
          (case f64_decode b of
             FNaN \<Rightarrow> f64_nan
           | FInf t \<Rightarrow> if s = t then f64_inf s else f64_nan
           | FFin t n k \<Rightarrow> f64_inf s)
      | FFin s m e \<Rightarrow>
          (case f64_decode b of
             FNaN \<Rightarrow> f64_nan
           | FInf t \<Rightarrow> f64_inf t
           | FFin t n k \<Rightarrow>
               (let c = min e k; z = f64_scaled s m e c + f64_scaled t n k c
                in if z = 0 then f64_zero (s \<and> t)
                   else f64_round (z < 0) (nat \<bar>z\<bar>) c)))"

definition fsub :: "float64 \<Rightarrow> float64 \<Rightarrow> float64" where
  "fsub a b = fadd a (fneg b)"

text \<open>
  Division as numpy does it (a zero divisor gives an infinity or NaN). The quotient
  of the significands is computed to at least 56 bits, and one more bit records a
  non-zero remainder, so that rounding sees on which side of a tie the quotient is.
\<close>

definition fdiv :: "float64 \<Rightarrow> float64 \<Rightarrow> float64" where
  "fdiv a b =
     (case f64_decode a of
        FNaN \<Rightarrow> f64_nan
      | FInf s \<Rightarrow>
          (case f64_decode b of
             FNaN \<Rightarrow> f64_nan
           | FInf t \<Rightarrow> f64_nan
           | FFin t n k \<Rightarrow> f64_inf (s \<noteq> t))
      | FFin s m e \<Rightarrow>
          (case f64_decode b of
             FNaN \<Rightarrow> f64_nan
           | FInf t \<Rightarrow> f64_zero (s \<noteq> t)
           | FFin t n k \<Rightarrow>
               if n = 0 then (if m = 0 then f64_nan else f64_inf (s \<noteq> t))
               else (let sh = 55 + bitlen n; q = (m * 2 ^ sh) div n; r = (m * 2 ^ sh) mod n
                     in f64_round (s \<noteq> t) (2 * q + (if r = 0 then 0 else 1))
                          (e - k - int sh - 1))))"

text \<open>Python's \<open>==\<close> on floats at zero: both zeros are equal to 0, NaN is not.\<close>

definition f64_is_zero :: "float64 \<Rightarrow> bool" where
  "f64_is_zero a = (case f64_decode a of FFin s m e \<Rightarrow> m = 0 | _ \<Rightarrow> False)"

definition unpack_d :: "byte list \<Rightarrow> error + float64" where
  "unpack_d bs = (if length bs = 8 then Inr (word_of_nat (be_nat bs)) else Inl StructError)"

section \<open>The delta run decoder: \<open>chConverter\<close>\<close>

text \<open>
  The body of \<open>for _ in range(nrecs)\<close>: one 16-bit delta, or the sentinel \<open>-32768\<close>
  followed by a 32-bit value; one sample is appended to \<open>data\<close>. In \<open>del_ab * inp\<close>
  Python converts the integer \<open>inp\<close> to a float first. An exception leaves the
  function, so \<open>data\<close> is lost and only the file object keeps its state.
\<close>

definition read_delta :: "float64 \<Rightarrow> float64 list \<Rightarrow> pyfile \<Rightarrow> (error + float64 list) \<times> pyfile" where
  "read_delta del_ab data f =
     (case read 2 f of (bs, f1) \<Rightarrow>
        (case unpack_h bs of
           Inl e \<Rightarrow> (Inl e, f1)
         | Inr inp \<Rightarrow>
             if inp = - 32768 then
               (case read 4 f1 of (bs4, f2) \<Rightarrow>
                  (case unpack_i bs4 of
                     Inl e \<Rightarrow> (Inl e, f2)
                   | Inr inp32 \<Rightarrow> (Inr (data @ [fmul del_ab (f64_of_int inp32)]), f2)))
             else if length data = 0 then
               (Inr (data @ [fmul del_ab (f64_of_int inp)]), f1)
             else
               (Inr (data @ [fadd (last data) (fmul del_ab (f64_of_int inp))]), f1)))"

fun read_run :: "nat \<Rightarrow> float64 \<Rightarrow> float64 list \<Rightarrow> pyfile \<Rightarrow> (error + float64 list) \<times> pyfile" where
  "read_run 0 del_ab data f = (Inr data, f)"
| "read_run (Suc n) del_ab data f =
     (case read_delta del_ab data f of
        (Inl e, f') \<Rightarrow> (Inl e, f')
      | (Inr data', f') \<Rightarrow> read_run n del_ab data' f')"

lemma content_read [simp]: "content (snd (read n f)) = content f"
  by (simp add: read_def)

lemma pos_read: "pos (snd (read n f)) = pos f + length (fst (read n f))"
  by (simp add: read_def)

lemma length_read: "length (fst (read n f)) = min n (length (content f) - pos f)"
  by (simp add: read_def read_bytes_def)

lemma read_delta_file:
  "content (snd (read_delta del_ab data f)) = content f \<and> pos f \<le> pos (snd (read_delta del_ab data f))"
  by (simp add: read_delta_def read_def split: prod.splits sum.splits)

lemma read_run_file:
  "content (snd (read_run n del_ab data f)) = content f \<and> pos f \<le> pos (snd (read_run n del_ab data f))"
proof (induction n arbitrary: data f)
  case 0
  show ?case by simp
next
  case (Suc n)
  obtain r f' where step: "read_delta del_ab data f = (r, f')"
    by (cases "read_delta del_ab data f")
  from read_delta_file [of del_ab data f] step
  have f': "content f' = content f" "pos f \<le> pos f'" by simp_all
  show ?case
  proof (cases r)
    case (Inl e)
    with step f' show ?thesis by simp
  next
    case (Inr data')
    from Suc.IH [of data' f'] f' step Inr show ?thesis by simp
  qed
qed

lemma unpack_BB_length: "unpack_BB bs = Inr p \<Longrightarrow> length bs = 2"
  by (auto simp: unpack_BB_def split: list.splits)

text \<open>
  \<open>while True\<close>: a run header of two unsigned bytes, then the run. The loop ends at
  the header \<open>(0, 0)\<close> or with the exception of a short read; every pass reads two
  bytes at least, so it ends on every file.
\<close>

function chConverter_loop :: "float64 \<Rightarrow> float64 list \<Rightarrow> pyfile \<Rightarrow> (error + float64 list) \<times> pyfile" where
  "chConverter_loop del_ab data f =
     (case read 2 f of (bs, f1) \<Rightarrow>
        (case unpack_BB bs of
           Inl e \<Rightarrow> (Inl e, f1)
         | Inr (x, nrecs) \<Rightarrow>
             if x = 0 \<and> nrecs = 0 then (Inr data, f1)
             else (case read_run nrecs del_ab data f1 of
                     (Inl e, f2) \<Rightarrow> (Inl e, f2)
                   | (Inr data', f2) \<Rightarrow> chConverter_loop del_ab data' f2)))"
  by pat_completeness auto
termination
proof (relation "measure (\<lambda>(del_ab, data, f). length (content f) - pos f)", goal_cases)
  case 1
  show ?case by simp
next
  case (2 del_ab data f bs f1 p x nrecs r f2 data')
  from 2 have len: "length (fst (read 2 f)) = 2"
    by (metis unpack_BB_length fst_conv)
  from 2 have f1: "f1 = snd (read 2 f)"
    by (metis snd_conv)
  from len have room: "pos f + 2 \<le> length (content f)"
    by (simp add: length_read)
  from f1 len have "pos f1 = pos f + 2" "content f1 = content f"
    by (simp_all add: pos_read)
  moreover from 2 have "f2 = snd (read_run nrecs del_ab data f1)"
    by (metis snd_conv)
  ultimately have "content f2 = content f" "pos f + 2 \<le> pos f2"
    using read_run_file [of nrecs del_ab data f1] by simp_all
  with room show ?case by simp
qed

declare chConverter_loop.simps [simp del]

definition chConverter :: "pyfile \<Rightarrow> (error + float64 list) \<times> pyfile" where
  "chConverter file =
     (case read 8 (seek 0x127C file) of (bs, f1) \<Rightarrow>
        (case unpack_d bs of
           Inl e \<Rightarrow> (Inl e, f1)
         | Inr del_ab \<Rightarrow> chConverter_loop del_ab [] (seek 0x1800 f1)))"

section \<open>Well-formed delta streams\<close>

text \<open>
  The inputs of the decoder, as the format describes them: a stream is a sequence of
  runs and the terminator \<open>(0, 0)\<close>; a run is a flag byte, a length byte and that many
  entries; an entry is a signed 16-bit big-endian delta other than \<open>-32768\<close>, or the
  sentinel \<open>-32768\<close> followed by a signed 32-bit big-endian value. A run header that is
  itself \<open>(0, 0)\<close> is the terminator, not a run.
\<close>

datatype entry = Direct "16 word" | Escaped "32 word"

fun be_bytes :: "nat \<Rightarrow> nat \<Rightarrow> byte list" where
  "be_bytes 0 v = []"
| "be_bytes (Suc n) v = word_of_nat (v div 256 ^ n) # be_bytes n v"

fun encode_entry :: "entry \<Rightarrow> byte list" where
  "encode_entry (Direct d) = be_bytes 2 (unat d)"
| "encode_entry (Escaped v) = [0x80, 0x00] @ be_bytes 4 (unat v)"

fun wf_entry :: "entry \<Rightarrow> bool" where
  "wf_entry (Direct d) = (d \<noteq> 0x8000)"
| "wf_entry (Escaped v) = True"

type_synonym run = "byte \<times> entry list"

definition encode_run :: "run \<Rightarrow> byte list" where
  "encode_run r = [fst r, word_of_nat (length (snd r))] @ concat (map encode_entry (snd r))"

definition wf_run :: "run \<Rightarrow> bool" where
  "wf_run r = (length (snd r) < 256 \<and> \<not> (fst r = 0 \<and> snd r = []) \<and> list_all wf_entry (snd r))"

definition encode_stream :: "run list \<Rightarrow> byte list" where
  "encode_stream rs = concat (map encode_run rs) @ [0, 0]"

text \<open>
  The sample that the decoder appends for an entry when \<open>data\<close> holds the samples so
  far, and the samples after a list of entries: the closed form of the loops above.
\<close>

fun next_sample :: "float64 \<Rightarrow> float64 list \<Rightarrow> entry \<Rightarrow> float64" where
  "next_sample s data (Direct d) =
     (if data = [] then fmul s (f64_of_int (sint d))
      else fadd (last data) (fmul s (f64_of_int (sint d))))"
| "next_sample s data (Escaped v) = fmul s (f64_of_int (sint v))"

fun accumulate :: "float64 \<Rightarrow> float64 list \<Rightarrow> entry list \<Rightarrow> float64 list" where
  "accumulate s data [] = data"
| "accumulate s data (e # es) = accumulate s (data @ [next_sample s data e]) es"

text \<open>The scale factor \<open>del_ab\<close>: the eight bytes at \<open>0x127C\<close>, big-endian.\<close>

definition stored_scale :: "pyfile \<Rightarrow> float64" where
  "stored_scale file = word_of_nat (be_nat (read_bytes 8 (seek 0x127C file)))"

abbreviation entries :: "run list \<Rightarrow> entry list" where
  "entries rs \<equiv> concat (map snd rs)"

text \<open>The run length byte of a run as it is stored: the second byte of its header.\<close>

definition run_length :: "run \<Rightarrow> nat" where
  "run_length r = unat (encode_run r ! 1)"

text \<open>
  Files for concrete checks: zeros up to \<open>0x127C\<close>, the scale factor, zeros up to
  \<open>0x1800\<close>, the stream.
\<close>

definition delta_file :: "float64 \<Rightarrow> byte list \<Rightarrow> pyfile" where
  "delta_file s stream =
     \<lparr>content = replicate 0x127C 0 @ be_bytes 8 (unat s) @ replicate 1404 0 @ stream, pos = 0\<rparr>"

text \<open>Scale 0.5 and the run \<open>(flag = 1, runLength = 3, deltas = [10, -5, 2])\<close>.\<close>

definition run3_file :: pyfile where
  "run3_file = delta_file 0x3FE0000000000000 [1, 3, 0, 10, 0xFF, 0xFB, 0, 2, 0, 0]"

text \<open>Scale 0.1 and one run of two escaped values, 1000 and -50.\<close>

definition escape_file :: pyfile where
  "escape_file = delta_file 0x3FB999999999999A
     [1, 2, 0x80, 0, 0, 0, 0x03, 0xE8, 0x80, 0, 0xFF, 0xFF, 0xFF, 0xCE, 0, 0]"

text \<open>Scale 0.5 and a run of three deltas that ends after the first.\<close>

definition truncated_file :: pyfile where
  "truncated_file = delta_file 0x3FE0000000000000 [1, 3, 0, 10]"

section \<open>The version 179 file: \<open>CHFile\<close>\<close>

text \<open>
  \<open>self.metadata\<close> is a dictionary from field names to integers, floats, decoded
  text and, under \<open>datetime\<close>, a \<open>struct_time\<close>. Decoded text and \<open>struct_time\<close>
  are kept abstract.
\<close>

datatype ('txt, 'tm) mvalue = MInt int | MFloat float64 | MStr 'txt | MTime 'tm

type_synonym ('txt, 'tm) metadata = "string \<rightharpoonup> ('txt, 'tm) mvalue"

text \<open>
  Modelled from the spec: the constants \<open>ENDIAN\<close>, \<open>UINT8\<close>, \<open>UINT16\<close> and \<open>STRING\<close>
  are not in the repository's source. The spec has big-endian scalar fields and a
  length-prefixed ASCII version string, so \<open>ENDIAN = '>'\<close>, \<open>UINT8 = '>B'\<close>,
  \<open>UINT16 = '>H'\<close> and \<open>STRING = '>{}s'\<close>. The field type is \<open>'x-time'\<close>,
  \<open>'utf16'\<close> or a format of \<open>struct\<close>, here \<open>UINT16\<close> or \<open>ENDIAN + 'd'\<close>.
\<close>

datatype ftype = XTime | Utf16 | Fmt_H | Fmt_d

definition fields :: "(string \<times> nat \<times> ftype) list" where
  "fields =
     [(''sequence_line_or_injection'', 252, Fmt_H),
      (''injection_or_sequence_line'', 256, Fmt_H),
      (''start_time'', 282, XTime),
      (''end_time'', 286, XTime),
      (''version_string'', 326, Utf16),
      (''description'', 347, Utf16),
      (''sample'', 858, Utf16),
      (''operator'', 1880, Utf16),
      (''date'', 2391, Utf16),
      (''inlet'', 2492, Utf16),
      (''instrument'', 2533, Utf16),
      (''method'', 2574, Utf16),
      (''software version'', 3601, Utf16),
      (''software name'', 3089, Utf16),
      (''software revision'', 3802, Utf16),
      (''units'', 4172, Utf16),
      (''detector'', 4213, Utf16),
      (''yscaling'', 4732, Fmt_d)]"

definition data_start :: nat where
  "data_start = 6144"

definition supported_versions :: "int set" where
  "supported_versions = {179}"

text \<open>\<open>unpack('>{}s'.format(length), ...)\<close>: a byte string of exactly that length.\<close>

definition unpack_s :: "nat \<Rightarrow> byte list \<Rightarrow> error + byte list" where
  "unpack_s n bs = (if length bs = n then Inr bs else Inl StructError)"

text \<open>
  Python's \<open>int()\<close> on a byte string: white space around, an optional sign, decimal
  digits, single underscores between digits.
\<close>

definition is_space :: "byte \<Rightarrow> bool" where
  "is_space b = (b = 32 \<or> b = 9 \<or> b = 10 \<or> b = 11 \<or> b = 12 \<or> b = 13)"

definition is_digit :: "byte \<Rightarrow> bool" where
  "is_digit b = (48 \<le> b \<and> b \<le> 57)"

fun py_digits :: "byte list \<Rightarrow> bool" where
  "py_digits [] = False"
| "py_digits [d] = is_digit d"
| "py_digits (d # u # ds) = (is_digit d \<and> (if u = 95 then py_digits ds else py_digits (u # ds)))"

definition digits_value :: "byte list \<Rightarrow> int" where
  "digits_value ds = foldl (\<lambda>a d. if d = 95 then a else 10 * a + (uint d - 48)) 0 ds"

definition py_int :: "byte list \<Rightarrow> int option" where
  "py_int bs =
     (let t = rev (dropWhile is_space (rev (dropWhile is_space bs)));
          neg = (t \<noteq> [] \<and> hd t = 45);
          ds = (if t \<noteq> [] \<and> (hd t = 45 \<or> hd t = 43) then tl t else t)
      in if py_digits ds then Some (if neg then - digits_value ds else digits_value ds)
         else None)"

text \<open>\<open>'>f'\<close>: an IEEE 754 binary32 value, which Python holds as a float.\<close>

definition f32_to_f64 :: "32 word \<Rightarrow> float64" where
  "f32_to_f64 w =
     (let n = unat w; s = (2 ^ 31 \<le> n); ex = (n div 2 ^ 23) mod 256; fr = n mod 2 ^ 23
      in if ex = 255 then (if fr = 0 then f64_inf s else f64_nan)
         else if ex = 0 then f64_round s fr (- 149)
         else f64_round s (2 ^ 23 + fr) (int ex - 150))"

definition unpack_f :: "byte list \<Rightarrow> error + float64" where
  "unpack_f bs = (if length bs = 4 then Inr (f32_to_f64 (word_of_nat (be_nat bs)))
                  else Inl StructError)"

text \<open>
  One field. The helper \<open>parse_utf16_string\<close> is not in the repository's source; it is
  the parameter \<open>parse_utf16\<close>, any function that reads from the file object and returns
  text or raises.
\<close>

fun parse_field ::
  "(pyfile \<Rightarrow> (error + 'txt) \<times> pyfile) \<Rightarrow> ftype \<Rightarrow> pyfile \<Rightarrow> (error + ('txt, 'tm) mvalue) \<times> pyfile" where
  "parse_field parse_utf16 Utf16 f =
     (case parse_utf16 f of
        (Inl e, f') \<Rightarrow> (Inl e, f')
      | (Inr t, f') \<Rightarrow> (Inr (MStr t), f'))"
| "parse_field parse_utf16 XTime f =
     (case read 4 f of (bs, f') \<Rightarrow>
        (case unpack_f bs of
           Inl e \<Rightarrow> (Inl e, f')
         | Inr x \<Rightarrow> (Inr (MFloat (fdiv x (f64_of_int 60000))), f')))"
| "parse_field parse_utf16 Fmt_H f =
     (case read 2 f of (bs, f') \<Rightarrow>
        (case unpack_H bs of
           Inl e \<Rightarrow> (Inl e, f')
         | Inr n \<Rightarrow> (Inr (MInt (int n)), f')))"
| "parse_field parse_utf16 Fmt_d f =
     (case read 8 f of (bs, f') \<Rightarrow>
        (case unpack_d bs of
           Inl e \<Rightarrow> (Inl e, f')
         | Inr x \<Rightarrow> (Inr (MFloat x), f')))"

text \<open>\<open>for name, offset, type_ in self.fields\<close>\<close>

fun parse_fields ::
  "(pyfile \<Rightarrow> (error + 'txt) \<times> pyfile) \<Rightarrow> (string \<times> nat \<times> ftype) list \<Rightarrow> pyfile \<Rightarrow>
   ('txt, 'tm) metadata \<Rightarrow> (error + unit) \<times> pyfile \<times> ('txt, 'tm) metadata" where
  "parse_fields parse_utf16 [] f md = (Inr (), f, md)"
| "parse_fields parse_utf16 ((name, offset, ty) # rest) f md =
     (case parse_field parse_utf16 ty (seek offset f) of
        (Inl e, f') \<Rightarrow> (Inl e, f', md)
      | (Inr v, f') \<Rightarrow> parse_fields parse_utf16 rest f' (md(name \<mapsto> v)))"

text \<open>
  \<open>_parse_header\<close>. It changes the file object and \<open>self.metadata\<close>, and both keep
  their state when it raises. \<open>time.strptime\<close> with the format of the source is the
  parameter \<open>strptime\<close>.
\<close>

definition parse_header ::
  "(pyfile \<Rightarrow> (error + 'txt) \<times> pyfile) \<Rightarrow> ('txt \<Rightarrow> error + 'tm) \<Rightarrow> pyfile \<Rightarrow>
   ('txt, 'tm) metadata \<Rightarrow> (error + unit) \<times> pyfile \<times> ('txt, 'tm) metadata" where
  "parse_header parse_utf16 strptime fl md =
     (case read 1 fl of (b, f1) \<Rightarrow>
        (case unpack_B b of
           Inl e \<Rightarrow> (Inl e, f1, md)
         | Inr len \<Rightarrow>
             (case read len f1 of (bs, f2) \<Rightarrow>
                (case unpack_s len bs of
                   Inl e \<Rightarrow> (Inl e, f2, md)
                 | Inr parsed \<Rightarrow>
                     (case py_int parsed of
                        None \<Rightarrow> (Inl InvalidLiteral, f2, md)
                      | Some version \<Rightarrow>
                          if version \<notin> supported_versions then (Inl (UnsupportedVersion version), f2, md)
                          else
                            (case parse_fields parse_utf16 fields f2 (md(''magic_number_version'' \<mapsto> MInt version)) of
                               (Inl e, f3, md3) \<Rightarrow> (Inl e, f3, md3)
                             | (Inr u, f3, md3) \<Rightarrow>
                                 (case md3 ''date'' of
                                    None \<Rightarrow> (Inl (KeyError ''date''), f3, md3)
                                  | Some (MStr t) \<Rightarrow>
                                      (case strptime t of
                                         Inl e \<Rightarrow> (Inl e, f3, md3)
                                       | Inr tm \<Rightarrow> (Inr (), f3, md3(''datetime'' \<mapsto> MTime tm)))
                                  | Some _ \<Rightarrow> (Inl TypeError, f3, md3))))))))"

text \<open>
  \<open>numpy.fromfile(file_, dtype='<d', count=n)\<close>: the next \<open>n\<close> whole items of eight
  bytes, little-endian, fewer when the file ends before; a negative count reads to the
  end of the file.
\<close>

fun chunks8 :: "byte list \<Rightarrow> byte list list" where
  "chunks8 bs = (if length bs < 8 then [] else take 8 bs # chunks8 (drop 8 bs))"

declare chunks8.simps [simp del]

definition fromfile_d :: "int \<Rightarrow> pyfile \<Rightarrow> float64 list \<times> pyfile" where
  "fromfile_d count f =
     (let items = chunks8 (drop (pos f) (content f));
          got = (if count < 0 then items else take (nat count) items)
      in (map (\<lambda>c. word_of_nat (le_nat c)) got, f\<lparr>pos := pos f + 8 * length got\<rparr>))"

text \<open>
  \<open>_parse_data\<close>. The array is read before \<open>self.metadata['yscaling']\<close> is looked
  up. \<open>_parse_header\<close> stores a float there; an integer would be converted to a
  float by numpy, and the product with text or a \<open>struct_time\<close> is given as
  \<open>TypeError\<close>.
\<close>

definition parse_data ::
  "('txt, 'tm) metadata \<Rightarrow> pyfile \<Rightarrow> (error + float64 list) \<times> pyfile" where
  "parse_data md fl =
     (let f1 = seek_end fl;
          n_points = (int (tell f1) - int data_start) div 8;
          f2 = seek data_start f1
      in case fromfile_d n_points f2 of (arr, f3) \<Rightarrow>
           (case md ''yscaling'' of
              None \<Rightarrow> (Inl (KeyError ''yscaling''), f3)
            | Some (MFloat s) \<Rightarrow> (Inr (map (\<lambda>v. fmul v s) arr), f3)
            | Some (MInt i) \<Rightarrow> (Inr (map (\<lambda>v. fmul v (f64_of_int i)) arr), f3)
            | Some _ \<Rightarrow> (Inl TypeError, f3)))"

text \<open>
  \<open>numpy.linspace(start, stop, num)\<close> on floats, as numpy computes it: the step is
  \<open>(stop - start) / (num - 1)\<close>, point \<open>i\<close> is \<open>i * step + start\<close>, and for more than
  one point the last one is then set to \<open>stop\<close>. When the step underflows to zero the
  division is done first. With fewer than two points there is no step.
\<close>

definition linspace :: "float64 \<Rightarrow> float64 \<Rightarrow> nat \<Rightarrow> float64 list" where
  "linspace start stop num =
     (let dv = int num - 1;
          delta = fsub stop start;
          y = map (\<lambda>i. f64_of_int (int i)) [0..<num];
          y1 = (if 0 < dv then
                  (let step = fdiv delta (f64_of_int dv)
                   in if f64_is_zero step then map (\<lambda>v. fmul (fdiv v (f64_of_int dv)) delta) y
                      else map (\<lambda>v. fmul v step) y)
                else map (\<lambda>v. fmul v delta) y);
          y2 = map (\<lambda>v. fadd v start) y1
      in if 1 < num then y2[num - 1 := stop] else y2)"

text \<open>\<open>times\<close>: \<open>numpy.linspace\<close> from \<open>start_time\<close> to \<open>end_time\<close>, one point per value.\<close>

definition times :: "('txt, 'tm) metadata \<Rightarrow> float64 list \<Rightarrow> error + float64 list" where
  "times md vals =
     (case md ''start_time'' of
        None \<Rightarrow> Inl (KeyError ''start_time'')
      | Some (MFloat a) \<Rightarrow>
          (case md ''end_time'' of
             None \<Rightarrow> Inl (KeyError ''end_time'')
           | Some (MFloat b) \<Rightarrow> Inr (linspace a b (length vals))
           | Some _ \<Rightarrow> Inl TypeError)
      | Some _ \<Rightarrow> Inl TypeError)"

text \<open>Little-endian bytes of a value, as the file stores a sample.\<close>

fun le_bytes :: "nat \<Rightarrow> nat \<Rightarrow> byte list" where
  "le_bytes 0 v = []"
| "le_bytes (Suc n) v = word_of_nat v # le_bytes n (v div 256)"

text \<open>A file of the version 179 layout: a header of 6144 bytes, then the stored samples.\<close>

definition sample_bytes :: "float64 list \<Rightarrow> byte list" where
  "sample_bytes raws = concat (map (\<lambda>r. le_bytes 8 (unat r)) raws)"

text \<open>An empty header, the sample 1.5 and three more bytes; the scale factor 2.0.\<close>

definition trailing_file :: pyfile where
  "trailing_file = \<lparr>content = replicate 6144 0 @ sample_bytes [0x3FF8000000000000] @ [1, 2, 3], pos = 0\<rparr>"

definition scaling_md :: "(unit, unit) metadata" where
  "scaling_md = [''yscaling'' \<mapsto> MFloat 0x4000000000000000]"

text \<open>A file that starts with the version string \<open>180\<close>.\<close>

definition version_180_file :: pyfile where
  "version_180_file = \<lparr>content = [3, 0x31, 0x38, 0x30, 0xFF, 0xFF], pos = 0\<rparr>"

section \<open>Byte strings and words\<close>

lemma length_be_bytes [simp]: "length (be_bytes n v) = n"
  by (induction n) simp_all

lemma be_nat_be_bytes: "be_nat (be_bytes n v) = v mod 256 ^ n"
proof (induction n)
  case 0
  show ?case by simp
next
  case (Suc n)
  have byte: "unat (word_of_nat (v div 256 ^ n) :: byte) = v div 256 ^ n mod 256"
    by (simp add: unat_of_nat)
  have "v mod 256 ^ Suc n = 256 ^ n * (v div 256 ^ n mod 256) + v mod 256 ^ n"
    using mod_mult2_eq [of v "256 ^ n" 256] by (simp add: mult.commute)
  with Suc byte show ?case
    by (simp add: mult.commute)
qed

lemma unat_byte_less: "unat (b :: byte) < 256"
  using unsigned_less [of b, where 'a = nat] by simp

lemma be_nat_less: "be_nat bs < 256 ^ length bs"
proof (induction bs)
  case Nil
  show ?case by simp
next
  case (Cons b bs)
  have "unat b * 256 ^ length bs + be_nat bs < (unat b + 1) * 256 ^ length bs"
    using Cons by simp
  also have "\<dots> \<le> 256 * 256 ^ length bs"
    using unat_byte_less [of b] by (intro mult_right_mono) simp_all
  finally show ?case by simp
qed

lemma be_bytes_add: "be_bytes n (v + k * 256 ^ n) = be_bytes n v"
proof (induction n arbitrary: k)
  case 0
  show ?case by simp
next
  case (Suc n)
  have "(v + k * 256 ^ Suc n) div 256 ^ n = v div 256 ^ n + k * 256"
    using div_mult_self1 [of "256 ^ n" v "k * 256"] by (simp add: mult.assoc mult.commute)
  moreover have "(word_of_nat (v div 256 ^ n + k * 256) :: byte) = word_of_nat (v div 256 ^ n)"
    by (subst word_of_nat_eq_iff) (simp add: take_bit_eq_mod)
  moreover have "be_bytes n (v + k * 256 ^ Suc n) = be_bytes n v"
    using Suc [of "k * 256"] by (simp add: mult.assoc mult.commute)
  ultimately show ?case by simp
qed

lemma be_bytes_be_nat: "be_bytes (length bs) (be_nat bs) = bs"
proof (induction bs)
  case Nil
  show ?case by simp
next
  case (Cons b bs)
  have less: "be_nat bs < 256 ^ length bs" by (rule be_nat_less)
  then have "(unat b * 256 ^ length bs + be_nat bs) div 256 ^ length bs = unat b"
    by simp
  moreover have "be_bytes (length bs) (unat b * 256 ^ length bs + be_nat bs) = be_bytes (length bs) (be_nat bs)"
    using be_bytes_add [of "length bs" "be_nat bs" "unat b"] by (simp add: add.commute)
  ultimately show ?case using Cons by simp
qed


section \<open>The decoder on well-formed streams\<close>

lemma unat_be16: "unat (word_of_nat (be_nat bs) :: 16 word) = be_nat bs" if "length bs = 2"
  using be_nat_less [of bs] that by (simp add: unat_of_nat)

lemma unat_be32: "unat (word_of_nat (be_nat bs) :: 32 word) = be_nat bs" if "length bs = 4"
  using be_nat_less [of bs] that by (simp add: unat_of_nat)

lemma be16_unat: "word_of_nat (be_nat (be_bytes 2 (unat (d :: 16 word)))) = d"
proof -
  have "unat d < 256 ^ 2" using unsigned_less [of d, where 'a = nat] by simp
  then show ?thesis by (simp add: be_nat_be_bytes)
qed


lemma be32_unat: "word_of_nat (be_nat (be_bytes 4 (unat (d :: 32 word)))) = d"
proof -
  have "unat d < 256 ^ 4" using unsigned_less [of d, where 'a = nat] by simp
  then show ?thesis by (simp add: be_nat_be_bytes)
qed

lemma sint_sentinel: "sint (d :: 16 word) = - 32768 \<longleftrightarrow> d = 0x8000"
proof
  assume "sint d = - 32768"
  then have "sint d = sint (0x8000 :: 16 word)" by simp
  then show "d = 0x8000" by (rule signed_word_eqI)
next
  assume "d = 0x8000"
  then show "sint d = - 32768" by simp
qed

lemma read_prefix:
  "drop (pos f) (content f) = bs @ rest \<Longrightarrow> length bs = n \<Longrightarrow> read n f = (bs, f\<lparr>pos := pos f + n\<rparr>)"
  by (auto simp: read_def read_bytes_def)

lemma drop_after:
  "drop (pos f) (content f) = bs @ rest \<Longrightarrow> length bs = n \<Longrightarrow> drop (pos f + n) (content f) = rest"
  by (metis add.commute append_eq_conv_conj drop_drop)

lemma read_delta_encoded:
  assumes "drop (pos f) (content f) = encode_entry e @ rest" and "wf_entry e"
  shows "read_delta s data f = (Inr (data @ [next_sample s data e]), f\<lparr>pos := pos f + length (encode_entry e)\<rparr>)"
proof (cases e)
  case (Direct d)
  with assms have bytes: "drop (pos f) (content f) = be_bytes 2 (unat d) @ rest" and d: "d \<noteq> 0x8000"
    by simp_all
  from read_prefix [OF bytes, of 2] have "read 2 f = (be_bytes 2 (unat d), f\<lparr>pos := pos f + 2\<rparr>)"
    by (simp del: be_bytes.simps)
  moreover have "unpack_h (be_bytes 2 (unat d)) = Inr (sint d)"
    by (simp add: unpack_h_def be16_unat del: be_bytes.simps)
  ultimately show ?thesis
    using d Direct by (simp add: read_delta_def sint_sentinel del: be_bytes.simps)
next
  case (Escaped v)
  with assms have bytes: "drop (pos f) (content f) = [0x80, 0x00] @ (be_bytes 4 (unat v) @ rest)"
    by simp
  let ?f1 = "f\<lparr>pos := pos f + 2\<rparr>"
  from read_prefix [OF bytes, of 2] have r2: "read 2 f = ([0x80, 0x00], ?f1)"
    by simp
  from drop_after [OF bytes, of 2] have "drop (pos ?f1) (content ?f1) = be_bytes 4 (unat v) @ rest"
    by simp
  from read_prefix [OF this, of 4] have r4: "read 4 ?f1 = (be_bytes 4 (unat v), f\<lparr>pos := pos f + 6\<rparr>)"
    by (simp del: be_bytes.simps)
  have "unpack_h [0x80, 0x00] = Inr (- 32768)"
    by (simp add: unpack_h_def)
  moreover have "unpack_i (be_bytes 4 (unat v)) = Inr (sint v)"
    by (simp add: unpack_i_def be32_unat del: be_bytes.simps)
  ultimately show ?thesis
    using r2 r4 Escaped by (simp add: read_delta_def del: be_bytes.simps)
qed

lemma read_run_encoded:
  assumes "drop (pos f) (content f) = concat (map encode_entry es) @ rest" and "list_all wf_entry es"
  shows "read_run (length es) s data f =
           (Inr (accumulate s data es), f\<lparr>pos := pos f + length (concat (map encode_entry es))\<rparr>)"
  using assms
proof (induction es arbitrary: data f)
  case Nil
  show ?case by simp
next
  case (Cons e es)
  let ?f1 = "f\<lparr>pos := pos f + length (encode_entry e)\<rparr>"
  from Cons.prems have bytes: "drop (pos f) (content f) = encode_entry e @ (concat (map encode_entry es) @ rest)"
    and wf: "wf_entry e" "list_all wf_entry es"
    by simp_all
  from read_delta_encoded [OF bytes wf(1)]
  have step: "read_delta s data f = (Inr (data @ [next_sample s data e]), ?f1)" .
  from drop_after [OF bytes refl] have "drop (pos ?f1) (content ?f1) = concat (map encode_entry es) @ rest"
    by simp
  from Cons.IH [OF this wf(2)] step show ?case
    by (simp add: add.assoc)
qed

lemma chConverter_loop_encoded:
  assumes "drop (pos f) (content f) = encode_stream rs @ rest" and "list_all wf_run rs"
  shows "chConverter_loop s data f =
           (Inr (accumulate s data (concat (map snd rs))), f\<lparr>pos := pos f + length (encode_stream rs)\<rparr>)"
  using assms
proof (induction rs arbitrary: data f)
  case Nil
  then have "drop (pos f) (content f) = [0, 0] @ rest"
    by (simp add: encode_stream_def)
  from read_prefix [OF this, of 2] show ?case
    by (simp add: chConverter_loop.simps [of s data f] unpack_BB_def encode_stream_def)
next
  case (Cons r rs)
  obtain x es where r: "r = (x, es)" by (cases r)
  let ?body = "concat (map encode_entry es)"
  let ?f1 = "f\<lparr>pos := pos f + 2\<rparr>"
  let ?f2 = "f\<lparr>pos := pos f + 2 + length ?body\<rparr>"
  from Cons.prems r have "wf_run (x, es)" and wf_rs: "list_all wf_run rs"
    by simp_all
  then have wf: "length es < 256" "\<not> (x = 0 \<and> es = [])" "list_all wf_entry es"
    by (simp_all add: wf_run_def)
  from Cons.prems r
  have bytes: "drop (pos f) (content f) = [x, word_of_nat (length es)] @ (?body @ encode_stream rs @ rest)"
    by (simp add: encode_stream_def encode_run_def)
  from read_prefix [OF bytes, of 2] have header: "read 2 f = ([x, word_of_nat (length es)], ?f1)"
    by simp
  have len: "unat (word_of_nat (length es) :: byte) = length es"
    using wf(1) by (simp add: unat_of_nat)
  have nonterm: "(unat x = 0 \<and> es = []) = False"
    using wf(2) by (simp add: unat_eq_0)
  from drop_after [OF bytes, of 2] have body: "drop (pos ?f1) (content ?f1) = ?body @ (encode_stream rs @ rest)"
    by simp
  from read_run_encoded [OF this wf(3)]
  have run: "read_run (length es) s data ?f1 = (Inr (accumulate s data es), ?f2)"
    by simp
  from drop_after [OF body refl] have "drop (pos ?f2) (content ?f2) = encode_stream rs @ rest"
    by simp
  from Cons.IH [OF this wf_rs]
  have rec: "chConverter_loop s (accumulate s data es) ?f2 =
               (Inr (accumulate s (accumulate s data es) (concat (map snd rs))),
                f\<lparr>pos := pos f + 2 + length ?body + length (encode_stream rs)\<rparr>)"
    by simp
  have acc: "accumulate s (accumulate s data es) (concat (map snd rs)) = accumulate s data (es @ concat (map snd rs))"
    by (induction es arbitrary: data) simp_all
  have "chConverter_loop s data f = chConverter_loop s (accumulate s data es) ?f2"
    using header run by (simp add: chConverter_loop.simps [of s data f] unpack_BB_def len nonterm)
  with rec acc r show ?case
    by (simp add: encode_stream_def encode_run_def add.assoc)
qed


lemma be16_bytes: "be_bytes 2 (unat (word_of_nat (be_nat bs) :: 16 word)) = bs" if "length bs = 2"
  using be_bytes_be_nat [of bs] that by (simp only: unat_be16 [OF that])

lemma be32_bytes: "be_bytes 4 (unat (word_of_nat (be_nat bs) :: 32 word)) = bs" if "length bs = 4"
  using be_bytes_be_nat [of bs] that by (simp only: unat_be32 [OF that])

lemma read_bytes_split:
  "length (read_bytes n f) = n \<Longrightarrow> drop (pos f) (content f) = read_bytes n f @ drop (pos f + n) (content f)"
  by (metis add.commute append_take_drop_id drop_drop read_bytes_def)

lemma unpack_h_length: "unpack_h bs = Inr v \<Longrightarrow> length bs = 2"
  by (simp add: unpack_h_def split: if_splits)

lemma unpack_i_length: "unpack_i bs = Inr v \<Longrightarrow> length bs = 4"
  by (simp add: unpack_i_def split: if_splits)

lemma be_bytes_2: "be_bytes 2 v = [word_of_nat (v div 256), word_of_nat v]"
  by (simp add: numeral_2_eq_2)

lemma read_delta_Inr:
  assumes "read_delta s data f = (Inr data', f')"
  shows "\<exists>e rest. wf_entry e \<and> drop (pos f) (content f) = encode_entry e @ rest"
proof -
  let ?bs = "read_bytes 2 f"
  let ?w = "word_of_nat (be_nat ?bs) :: 16 word"
  let ?f1 = "f\<lparr>pos := pos f + 2\<rparr>"
  let ?bs4 = "read_bytes 4 ?f1"
  from assms obtain inp where inp: "unpack_h ?bs = Inr inp"
    by (cases "unpack_h ?bs") (simp_all add: read_delta_def read_def)
  then have len: "length ?bs = 2" by (rule unpack_h_length)
  then have rd: "read 2 f = (?bs, ?f1)" by (simp add: read_def)
  have rd4: "read 4 ?f1 = (?bs4, ?f1\<lparr>pos := pos ?f1 + length ?bs4\<rparr>)" by (simp add: read_def)
  from inp len have inp_eq: "inp = sint ?w" by (simp add: unpack_h_def)
  from read_bytes_split [OF len]
  have bytes: "drop (pos f) (content f) = ?bs @ drop (pos f + 2) (content f)" .
  show ?thesis
  proof (cases "inp = - 32768")
    case False
    with inp_eq have "wf_entry (Direct ?w)" by (simp add: sint_sentinel)
    moreover from bytes have "drop (pos f) (content f) = encode_entry (Direct ?w) @ drop (pos f + 2) (content f)"
      by (simp only: encode_entry.simps be16_bytes [OF len])
    ultimately show ?thesis by blast
  next
    case True
    with inp_eq have "?w = 0x8000" by (simp add: sint_sentinel)
    then have "unat ?w = 32768" by simp
    then have "be_bytes 2 (unat ?w) = [0x80, 0x00]" by (simp only: be_bytes_2) simp
    then have bs: "?bs = [0x80, 0x00]" by (simp only: be16_bytes [OF len])
    from assms inp True rd rd4 obtain v where v: "unpack_i ?bs4 = Inr v"
      by (cases "unpack_i ?bs4") (simp_all add: read_delta_def)
    then have len4: "length ?bs4 = 4" by (rule unpack_i_length)
    from read_bytes_split [OF len4]
    have "drop (pos f + 2) (content f) = ?bs4 @ drop (pos f + 2 + 4) (content f)"
      by simp
    with bytes
    have "drop (pos f) (content f) = ?bs @ ?bs4 @ drop (pos f + 2 + 4) (content f)"
      by simp
    then have "drop (pos f) (content f) =
        encode_entry (Escaped (word_of_nat (be_nat ?bs4))) @ drop (pos f + 2 + 4) (content f)"
      by (simp only: bs encode_entry.simps be32_bytes [OF len4] append_assoc)
    then show ?thesis using wf_entry.simps(2) by blast
  qed
qed

lemma read_run_Inr:
  assumes "read_run n s data f = (Inr data', f')"
  shows "\<exists>es rest. length es = n \<and> list_all wf_entry es \<and>
           drop (pos f) (content f) = concat (map encode_entry es) @ rest"
  using assms
proof (induction n arbitrary: data f)
  case 0
  show ?case by simp
next
  case (Suc n)
  obtain r f1 where step: "read_delta s data f = (r, f1)"
    by (cases "read_delta s data f")
  with Suc.prems obtain d1 where r: "r = Inr d1"
    by (cases r) simp_all
  from read_delta_Inr [of s data f d1 f1] step r obtain e rest1
    where e: "wf_entry e" "drop (pos f) (content f) = encode_entry e @ rest1"
    by blast
  from read_delta_encoded [OF e(2) e(1), of s data] step
  have f1: "f1 = f\<lparr>pos := pos f + length (encode_entry e)\<rparr>" by simp
  from drop_after [OF e(2) refl] f1 have rest1: "drop (pos f1) (content f1) = rest1"
    by simp
  from Suc.prems step r have "read_run n s d1 f1 = (Inr data', f')" by simp
  from Suc.IH [OF this] rest1 obtain es rest
    where es: "length es = n" "list_all wf_entry es" "rest1 = concat (map encode_entry es) @ rest"
    by auto
  from e es have "length (e # es) = Suc n \<and> list_all wf_entry (e # es) \<and>
      drop (pos f) (content f) = concat (map encode_entry (e # es)) @ rest"
    by simp
  then show ?case by blast
qed

lemma chConverter_loop_Inr:
  assumes "chConverter_loop s data f = (Inr out, f')"
  shows "\<exists>rs rest. list_all wf_run rs \<and> drop (pos f) (content f) = encode_stream rs @ rest"
  using assms
proof (induction s data f rule: chConverter_loop.induct)
  case (1 s data f)
  let ?bs = "read_bytes 2 f"
  let ?f1 = "f\<lparr>pos := pos f + length ?bs\<rparr>"
  have rd: "read 2 f = (?bs, ?f1)" by (simp add: read_def)
  from "1.prems" obtain p where p: "unpack_BB ?bs = Inr p"
    by (cases "unpack_BB ?bs") (simp_all add: chConverter_loop.simps [of s data f] rd)
  then have len: "length ?bs = 2" by (rule unpack_BB_length)
  then obtain a b where ab: "?bs = [a, b]"
    by (cases ?bs; cases "tl ?bs") auto
  with p have p_eq: "p = (unat a, unat b)" by (simp add: unpack_BB_def)
  from read_bytes_split [OF len] ab
  have bytes: "drop (pos f) (content f) = [a, b] @ drop (pos f + 2) (content f)" by simp
  show ?case
  proof (cases "unat a = 0 \<and> unat b = 0")
    case True
    then have "a = 0" "b = 0" by (simp_all add: unat_eq_0)
    with bytes have "drop (pos f) (content f) = encode_stream [] @ drop (pos f + 2) (content f)"
      by (simp add: encode_stream_def)
    moreover have "list_all wf_run []" by simp
    ultimately show ?thesis by blast
  next
    case False
    obtain r f2 where run: "read_run (unat b) s data ?f1 = (r, f2)"
      by (cases "read_run (unat b) s data ?f1")
    with "1.prems" rd p p_eq False obtain d2 where r: "r = Inr d2"
      by (cases r) (simp_all add: chConverter_loop.simps [of s data f])
    with "1.prems" rd p p_eq False run have rec: "chConverter_loop s d2 f2 = (Inr out, f')"
      by (simp add: chConverter_loop.simps [of s data f])
    from read_run_Inr [of "unat b" s data ?f1 d2 f2] run r len obtain es rest1
      where es: "length es = unat b" "list_all wf_entry es"
        "drop (pos f + 2) (content f) = concat (map encode_entry es) @ rest1"
      by auto
    have f1: "drop (pos ?f1) (content ?f1) = concat (map encode_entry es) @ rest1"
      using es(3) len by simp
    from read_run_encoded [OF f1 es(2), of s data] run es(1)
    have f2: "f2 = f\<lparr>pos := pos f + 2 + length (concat (map encode_entry es))\<rparr>"
      using len by simp
    from drop_after [OF f1 refl] f2 len have "drop (pos f2) (content f2) = rest1"
      by simp
    with "1.IH" [OF rd [symmetric] p p_eq [symmetric] False run [symmetric] r rec]
    obtain rs rest where rs: "list_all wf_run rs" "rest1 = encode_stream rs @ rest"
      by auto
    have "unat b < 256" by (rule unat_byte_less)
    with es False have wf: "wf_run (a, es)"
      by (auto simp: wf_run_def)
    have "encode_run (a, es) = [a, b] @ concat (map encode_entry es)"
      using es(1) by (simp add: encode_run_def)
    with bytes es(3) rs(2)
    have "drop (pos f) (content f) = encode_stream ((a, es) # rs) @ rest"
      by (simp add: encode_stream_def)
    with wf rs(1) have "list_all wf_run ((a, es) # rs) \<and>
        drop (pos f) (content f) = encode_stream ((a, es) # rs) @ rest"
      by simp
    then show ?thesis by blast
  qed
qed

lemma length_encode_stream: "2 \<le> length (encode_stream rs)"
  by (simp add: encode_stream_def)

lemma chConverter_encoded:
  assumes "drop 0x1800 (content file) = encode_stream rs @ rest" and "list_all wf_run rs"
  shows "chConverter file =
           (Inr (accumulate (stored_scale file) [] (entries rs)),
            file\<lparr>pos := 0x1800 + length (encode_stream rs)\<rparr>)"
proof -
  let ?f0 = "seek 0x127C file"
  have "length (drop 0x1800 (content file)) \<ge> 2"
    using assms(1) length_encode_stream [of rs] by simp
  then have long: "0x1800 + 2 \<le> length (content file)" by simp
  then have len8: "length (read_bytes 8 ?f0) = 8"
    by (simp add: read_bytes_def seek_def)
  then have rd: "read 8 ?f0 = (read_bytes 8 ?f0, file\<lparr>pos := 0x127C + 8\<rparr>)"
    by (simp add: read_def seek_def)
  from len8 have scale: "unpack_d (read_bytes 8 ?f0) = Inr (stored_scale file)"
    by (simp add: unpack_d_def stored_scale_def)
  let ?f2 = "seek 0x1800 (file\<lparr>pos := 0x127C + 8\<rparr>)"
  have "drop (pos ?f2) (content ?f2) = encode_stream rs @ rest"
    using assms(1) by (simp add: seek_def)
  from chConverter_loop_encoded [OF this assms(2), of "stored_scale file" "[]"]
  have "chConverter_loop (stored_scale file) [] ?f2 =
          (Inr (accumulate (stored_scale file) [] (entries rs)),
           file\<lparr>pos := 0x1800 + length (encode_stream rs)\<rparr>)"
    by (simp add: seek_def)
  with rd scale show ?thesis
    by (simp add: chConverter_def)
qed

lemma chConverter_Inr:
  assumes "fst (chConverter file) = Inr out"
  shows "\<exists>rs rest. list_all wf_run rs \<and> drop 0x1800 (content file) = encode_stream rs @ rest"
proof -
  let ?f0 = "seek 0x127C file"
  obtain bs f1 where rd: "read 8 ?f0 = (bs, f1)" by (cases "read 8 ?f0")
  with assms obtain s where s: "unpack_d bs = Inr s"
    by (cases "unpack_d bs") (simp_all add: chConverter_def)
  let ?f2 = "seek 0x1800 f1"
  from rd have f1: "content f1 = content file"
    by (auto simp: read_def seek_def)
  from assms rd s have "fst (chConverter_loop s [] ?f2) = Inr out"
    by (simp add: chConverter_def)
  then have "chConverter_loop s [] ?f2 = (Inr out, snd (chConverter_loop s [] ?f2))"
    by (metis prod.collapse)
  from chConverter_loop_Inr [OF this] f1 show ?thesis
    by (simp add: seek_def)
qed

lemma length_accumulate: "length (accumulate s data es) = length data + length es"
  by (induction es arbitrary: data) simp_all

lemma accumulate_append: "accumulate s data (xs @ ys) = accumulate s (accumulate s data xs) ys"
  by (induction xs arbitrary: data) simp_all

lemma accumulate_prefix: "take (length data) (accumulate s data es) = data"
proof (induction es arbitrary: data)
  case Nil
  show ?case by simp
next
  case (Cons e es)
  let ?data' = "data @ [next_sample s data e]"
  have "take (length data) (accumulate s ?data' es) =
          take (length data) (take (length ?data') (accumulate s ?data' es))"
    by simp
  also have "\<dots> = take (length data) ?data'"
    by (simp only: Cons.IH)
  finally show ?case by simp
qed

lemma accumulate_take:
  "take (length data + k) (accumulate s data es) = accumulate s data (take k es)"
proof -
  have "accumulate s data es = accumulate s (accumulate s data (take k es)) (drop k es)"
    by (simp only: accumulate_append [symmetric] append_take_drop_id)
  moreover have "length (accumulate s data (take k es)) = length data + min (length es) k"
    by (simp add: length_accumulate)
  ultimately show ?thesis
  proof (cases "k \<le> length es")
    case True
    with \<open>length (accumulate s data (take k es)) = length data + min (length es) k\<close>
    have "length (accumulate s data (take k es)) = length data + k" by simp
    with accumulate_prefix [where s = s and data = "accumulate s data (take k es)" and es = "drop k es"]
      \<open>accumulate s data es = accumulate s (accumulate s data (take k es)) (drop k es)\<close>
    show ?thesis by simp
  next
    case False
    then show ?thesis by (simp add: length_accumulate)
  qed
qed

lemma accumulate_nth:
  assumes "k < length es"
  shows "accumulate s data es ! (length data + k) =
           next_sample s (take (length data + k) (accumulate s data es)) (es ! k)"
proof -
  let ?A = "accumulate s data (take k es)"
  have len: "length ?A = length data + k"
    using assms by (simp add: length_accumulate)
  have "take (length data + Suc k) (accumulate s data es) = accumulate s data (take k es @ [es ! k])"
    using assms by (simp only: accumulate_take take_Suc_conv_app_nth)
  also have "\<dots> = ?A @ [next_sample s ?A (es ! k)]"
    by (simp add: accumulate_append)
  finally have "take (length data + Suc k) (accumulate s data es) ! (length data + k) = next_sample s ?A (es ! k)"
    using len by (simp add: nth_append)
  then show ?thesis
    by (simp add: accumulate_take)
qed

section \<open>Errors and the file object\<close>

lemma unpack_h_error: "unpack_h bs = Inl e \<Longrightarrow> e = StructError"
  by (simp add: unpack_h_def split: if_splits)

lemma unpack_i_error: "unpack_i bs = Inl e \<Longrightarrow> e = StructError"
  by (simp add: unpack_i_def split: if_splits)

lemma unpack_BB_error: "unpack_BB bs = Inl e \<Longrightarrow> e = StructError"
  by (simp add: unpack_BB_def split: list.splits)

lemma unpack_d_error: "unpack_d bs = Inl e \<Longrightarrow> e = StructError"
  by (simp add: unpack_d_def split: if_splits)

lemma read_delta_error: "read_delta s data f = (Inl e, f') \<Longrightarrow> e = StructError"
  by (auto simp: read_delta_def split: prod.splits sum.splits if_splits
      dest: unpack_h_error unpack_i_error)

lemma read_run_error: "read_run n s data f = (Inl e, f') \<Longrightarrow> e = StructError"
proof (induction n arbitrary: data f)
  case 0
  then show ?case by simp
next
  case (Suc n)
  then show ?case
    by (auto split: prod.splits sum.splits dest: read_delta_error)
qed

text \<open>The four outcomes of one pass of the loop.\<close>

lemma chConverter_loop_cases:
  obtains
    (short) e where "unpack_BB (read_bytes 2 f) = Inl e"
      "chConverter_loop s data f = (Inl e, f\<lparr>pos := pos f + length (read_bytes 2 f)\<rparr>)"
  | (stop) "unpack_BB (read_bytes 2 f) = Inr (0, 0)"
      "chConverter_loop s data f = (Inr data, f\<lparr>pos := pos f + 2\<rparr>)"
  | (fail) x nrecs e f2 where "unpack_BB (read_bytes 2 f) = Inr (x, nrecs)" "\<not> (x = 0 \<and> nrecs = 0)"
      "read_run nrecs s data (f\<lparr>pos := pos f + 2\<rparr>) = (Inl e, f2)"
      "chConverter_loop s data f = (Inl e, f2)"
  | (continue) x nrecs data' f2 where "unpack_BB (read_bytes 2 f) = Inr (x, nrecs)" "\<not> (x = 0 \<and> nrecs = 0)"
      "read_run nrecs s data (f\<lparr>pos := pos f + 2\<rparr>) = (Inr data', f2)"
      "chConverter_loop s data f = chConverter_loop s data' f2"
proof -
  let ?bs = "read_bytes 2 f"
  have rd: "read 2 f = (?bs, f\<lparr>pos := pos f + length ?bs\<rparr>)" by (simp add: read_def)
  show thesis
  proof (cases "unpack_BB ?bs")
    case (Inl e)
    with rd have "chConverter_loop s data f = (Inl e, f\<lparr>pos := pos f + length ?bs\<rparr>)"
      by (simp add: chConverter_loop.simps [of s data f])
    with Inl show thesis by (rule short)
  next
    case (Inr p)
    then have len: "length ?bs = 2" by (rule unpack_BB_length)
    obtain x nrecs where p: "p = (x, nrecs)" by (cases p)
    show thesis
    proof (cases "x = 0 \<and> nrecs = 0")
      case True
      with rd Inr p len have "chConverter_loop s data f = (Inr data, f\<lparr>pos := pos f + 2\<rparr>)"
        by (simp add: chConverter_loop.simps [of s data f])
      moreover from Inr p True have "unpack_BB ?bs = Inr (0, 0)" by simp
      ultimately show thesis by (rule stop [rotated])
    next
      case False
      then have nz: "(x = 0 \<and> nrecs = 0) = False" by simp
      obtain r f2 where run: "read_run nrecs s data (f\<lparr>pos := pos f + 2\<rparr>) = (r, f2)"
        by (cases "read_run nrecs s data (f\<lparr>pos := pos f + 2\<rparr>)")
      show thesis
      proof (cases r)
        case (Inl e)
        with rd Inr p len run have "chConverter_loop s data f = (Inl e, f2)"
          by (simp add: chConverter_loop.simps [of s data f] nz)
        with Inr p False run Inl show thesis by (auto intro: fail)
      next
        case (Inr data')
        with rd \<open>unpack_BB ?bs = Inr p\<close> p len run
        have "chConverter_loop s data f = chConverter_loop s data' f2"
          by (simp add: chConverter_loop.simps [of s data f] nz)
        with \<open>unpack_BB ?bs = Inr p\<close> p False run Inr show thesis by (auto intro: continue)
      qed
    qed
  qed
qed

text \<open>Every pass moves forward in the same file; this is the induction on the loop.\<close>

lemma chConverter_loop_induct [case_names step]:
  fixes f :: pyfile
  assumes "\<And>data f. (\<And>data' f' :: pyfile. content f' = content f \<Longrightarrow> pos f + 2 \<le> pos f' \<Longrightarrow>
              pos f + 2 \<le> length (content f) \<Longrightarrow> P data' f') \<Longrightarrow> P data f"
  shows "P data f"
proof (induction "length (content f) - pos f" arbitrary: data f rule: less_induct)
  case less
  show ?case
  proof (rule assms)
    fix data' and f' :: pyfile
    assume "content f' = content f" "pos f + 2 \<le> pos f'" "pos f + 2 \<le> length (content f)"
    then have "length (content f') - pos f' < length (content f) - pos f" by simp
    then show "P data' f'" by (rule less)
  qed
qed

lemma read_run_after_header:
  assumes "unpack_BB (read_bytes 2 f) = Inr p" and "read_run n s data (f\<lparr>pos := pos f + 2\<rparr>) = (r, f2)"
  shows "content f2 = content f" and "pos f + 2 \<le> pos f2" and "pos f + 2 \<le> length (content f)"
proof -
  from assms(1) have "length (read_bytes 2 f) = 2" by (rule unpack_BB_length)
  then show "pos f + 2 \<le> length (content f)" by (simp add: read_bytes_def)
  from read_run_file [of n s data "f\<lparr>pos := pos f + 2\<rparr>"] assms(2)
  show "content f2 = content f" and "pos f + 2 \<le> pos f2" by simp_all
qed

lemma chConverter_loop_error: "chConverter_loop s data f = (Inl e, f') \<Longrightarrow> e = StructError"
proof (induction data f rule: chConverter_loop_induct)
  case (step data f)
  show ?case
  proof (cases rule: chConverter_loop_cases [of f s data])
    case (short e')
    with step.prems show ?thesis by (auto dest: unpack_BB_error)
  next
    case stop
    with step.prems show ?thesis by simp
  next
    case (fail x nrecs e' f2)
    with step.prems show ?thesis by (auto dest: read_run_error)
  next
    case (continue x nrecs data' f2)
    from read_run_after_header [OF continue(1) continue(3)] continue(4) step.prems
    show ?thesis by (intro step.IH [of f2 data']) simp_all
  qed
qed

lemma content_chConverter_loop: "content (snd (chConverter_loop s data f)) = content f"
proof (induction data f rule: chConverter_loop_induct)
  case (step data f)
  show ?case
  proof (cases rule: chConverter_loop_cases [of f s data])
    case (short e')
    then show ?thesis by simp
  next
    case stop
    then show ?thesis by simp
  next
    case (fail x nrecs e' f2)
    from read_run_after_header [OF fail(1) fail(3)] fail(4) show ?thesis by simp
  next
    case (continue x nrecs data' f2)
    from read_run_after_header [OF continue(1) continue(3)] continue(4)
      step.IH [of f2 data']
    show ?thesis by simp
  qed
qed

lemma chConverter_error: "fst (chConverter file) = Inl e \<Longrightarrow> e = StructError"
proof -
  assume err: "fst (chConverter file) = Inl e"
  obtain bs f1 where rd: "read 8 (seek 0x127C file) = (bs, f1)"
    by (cases "read 8 (seek 0x127C file)")
  show ?thesis
  proof (cases "unpack_d bs")
    case (Inl e')
    with err rd show ?thesis by (auto simp: chConverter_def dest: unpack_d_error)
  next
    case (Inr s)
    with err rd have "fst (chConverter_loop s [] (seek 0x1800 f1)) = Inl e"
      by (simp add: chConverter_def)
    then have "chConverter_loop s [] (seek 0x1800 f1) = (Inl e, snd (chConverter_loop s [] (seek 0x1800 f1)))"
      by (metis prod.collapse)
    then show ?thesis by (rule chConverter_loop_error)
  qed
qed

lemma content_chConverter: "content (snd (chConverter file)) = content file"
  by (simp add: chConverter_def read_def seek_def content_chConverter_loop split: sum.splits)

lemma pyfile_eq_pos: "content g = content f \<Longrightarrow> g\<lparr>pos := n\<rparr> = (f :: pyfile)\<lparr>pos := n\<rparr>"
  by (cases f, cases g) simp

section \<open>Concrete files\<close>

lemmas f64_eval = fmul_def fadd_def fsub_def fneg_def fdiv_def f64_scaled_def f64_of_int_def
  f64_round_def f64_decode_def f64_expo_def f64_frac_def f64_sign_def bitlen.simps f64_zero_def
  f64_inf_def f64_nan_def f64_signbit_def Let_def

lemma be64_unat: "word_of_nat (be_nat (be_bytes 8 (unat (s :: 64 word)))) = s"
proof -
  have "unat s < 256 ^ 8" using unsigned_less [of s, where 'a = nat] by simp
  then show ?thesis by (simp add: be_nat_be_bytes)
qed

lemma delta_file_stream: "drop 0x1800 (content (delta_file s stream)) = stream"
  by (simp add: delta_file_def)

lemma delta_file_scale: "stored_scale (delta_file s stream) = s"
proof -
  have "read_bytes 8 (seek 0x127C (delta_file s stream)) = be_bytes 8 (unat s)"
    by (simp add: read_bytes_def seek_def delta_file_def)
  then show ?thesis by (simp only: stored_scale_def be64_unat)
qed

lemma run3_stream: "[1, 3, 0, 10, 0xFF, 0xFB, 0, 2, 0, 0] = encode_stream [(1, [Direct 10, Direct (- 5), Direct 2])] @ []"
  by (simp add: encode_stream_def encode_run_def be_bytes_2)

lemma run3_wf: "list_all wf_run [(1, [Direct 10, Direct (- 5), Direct 2])]"
  by (simp add: wf_run_def)

lemma be_bytes_4: "be_bytes 4 v = [word_of_nat (v div 16777216), word_of_nat (v div 65536), word_of_nat (v div 256), word_of_nat v]"
proof -
  have "be_bytes (Suc (Suc (Suc (Suc 0)))) v =
      [word_of_nat (v div 16777216), word_of_nat (v div 65536), word_of_nat (v div 256), word_of_nat v]"
    by simp
  moreover have "(4 :: nat) = Suc (Suc (Suc (Suc 0)))" by simp
  ultimately show ?thesis by (simp only:)
qed

lemma escape_stream: "[1, 2, 0x80, 0, 0, 0, 0x03, 0xE8, 0x80, 0, 0xFF, 0xFF, 0xFF, 0xCE, 0, 0]
      = encode_stream [(1, [Escaped 1000, Escaped (- 50)])] @ []"
  by (simp add: encode_stream_def encode_run_def be_bytes_4)

lemma escape_wf: "list_all wf_run [(1, [Escaped 1000, Escaped (- 50)])]"
  by (simp add: wf_run_def)

lemma run3_samples:
  "accumulate 0x3FE0000000000000 [] [Direct 10, Direct (- 5), Direct 2] =
     [0x4014000000000000, 0x4004000000000000, 0x400C000000000000]"
  by (simp add: f64_eval)

lemma escape_samples:
  "accumulate 0x3FB999999999999A [] [Escaped 1000, Escaped (- 50)] =
     [0x4059000000000000, 0xC014000000000000]"
  by (simp add: f64_eval)

lemma escape_claimed: "fadd 0x4059000000000000 (fmul 0x3FB999999999999A (f64_of_int (- 50))) = 0x4057C00000000000"
  by (simp add: f64_eval)

lemma read_run_numeral:
  "read_run (numeral k) s data f =
     (case read_delta s data f of
        (Inl e, f') \<Rightarrow> (Inl e, f')
      | (Inr data', f') \<Rightarrow> read_run (pred_numeral k) s data' f')"
  by (simp add: numeral_eq_Suc)

lemma chConverter_delta_file:
  "chConverter (delta_file s stream) = chConverter_loop s [] (delta_file s stream\<lparr>pos := 0x1800\<rparr>)"
proof -
  have "read 8 (seek 0x127C (delta_file s stream)) = (be_bytes 8 (unat s), delta_file s stream\<lparr>pos := 0x127C + 8\<rparr>)"
    by (simp add: read_def read_bytes_def seek_def delta_file_def)
  moreover have "unpack_d (be_bytes 8 (unat s)) = Inr s"
    by (simp add: unpack_d_def be64_unat del: be_bytes.simps)
  ultimately show ?thesis
    by (simp add: chConverter_def seek_def)
qed

lemma truncated_decoded: "fst (chConverter truncated_file) = Inl StructError"
  unfolding truncated_file_def
  by (subst chConverter_delta_file)
    (simp add: chConverter_loop.simps read_run_numeral read_delta_def
      read_def read_bytes_def delta_file_def unpack_BB_def unpack_h_def)

lemma run_length_wf: "wf_run r \<Longrightarrow> run_length r = length (snd r)"
  by (simp add: run_length_def wf_run_def encode_run_def unat_of_nat)

lemma sum_run_lengths:
  "list_all wf_run rs \<Longrightarrow> (\<Sum>r\<leftarrow>rs. run_length r) = length (entries rs)"
  by (induction rs) (simp_all add: run_length_wf)

lemma last_take:
  assumes "0 < k" and "k \<le> length xs"
  shows "last (take k xs) = xs ! (k - 1)"
proof -
  from assms have "take k xs \<noteq> []" by auto
  then have "last (take k xs) = take k xs ! (length (take k xs) - 1)" by (rule last_conv_nth)
  also have "\<dots> = xs ! (k - 1)" using assms by simp
  finally show ?thesis .
qed

lemma run3_decoded:
  "fst (chConverter run3_file) = Inr [0x4014000000000000, 0x4004000000000000, 0x400C000000000000]"
proof -
  have "drop 0x1800 (content run3_file) = encode_stream [(1, [Direct 10, Direct (- 5), Direct 2])] @ []"
    by (simp only: run3_file_def delta_file_stream run3_stream)
  from chConverter_encoded [OF this run3_wf]
  have "fst (chConverter run3_file) =
      Inr (accumulate (stored_scale run3_file) [] (entries [(1, [Direct 10, Direct (- 5), Direct 2])]))"
    by (simp only: fst_conv)
  moreover have "stored_scale run3_file = 0x3FE0000000000000"
    by (simp only: run3_file_def delta_file_scale)
  moreover have "entries [(1 :: byte, [Direct 10, Direct (- 5), Direct 2])] = [Direct 10, Direct (- 5), Direct 2]"
    by simp
  ultimately show ?thesis by (simp only: run3_samples)
qed

lemma escape_decoded:
  "fst (chConverter escape_file) = Inr [0x4059000000000000, 0xC014000000000000]"
proof -
  have "drop 0x1800 (content escape_file) = encode_stream [(1, [Escaped 1000, Escaped (- 50)])] @ []"
    by (simp only: escape_file_def delta_file_stream escape_stream)
  from chConverter_encoded [OF this escape_wf]
  have "fst (chConverter escape_file) =
      Inr (accumulate (stored_scale escape_file) [] (entries [(1, [Escaped 1000, Escaped (- 50)])]))"
    by (simp only: fst_conv)
  moreover have "stored_scale escape_file = 0x3FB999999999999A"
    by (simp only: escape_file_def delta_file_scale)
  moreover have "entries [(1 :: byte, [Escaped 1000, Escaped (- 50)])] = [Escaped 1000, Escaped (- 50)]"
    by simp
  ultimately show ?thesis by (simp only: escape_samples)
qed

lemma concat_nonempty: "concat (filter (\<lambda>xs. xs \<noteq> []) xss) = concat xss"
  by (induction xss) simp_all

lemma direct_delta_nth:
  assumes "drop 0x1800 (content file) = encode_stream rs @ rest" and "list_all wf_run rs"
    and "k < length (entries rs)" and "entries rs ! k = Direct d"
  shows "\<exists>out. fst (chConverter file) = Inr out \<and> k < length out \<and>
           out ! k = (if k = 0 then fmul (stored_scale file) (f64_of_int (sint d))
                      else fadd (out ! (k - 1)) (fmul (stored_scale file) (f64_of_int (sint d))))"
proof -
  let ?s = "stored_scale file"
  let ?out = "accumulate ?s [] (entries rs)"
  have len: "length ?out = length (entries rs)" by (simp add: length_accumulate)
  from accumulate_nth [OF assms(3), of ?s "[]"] assms(4)
  have nth: "?out ! k = next_sample ?s (take k ?out) (Direct d)" by simp
  have "?out ! k = (if k = 0 then fmul ?s (f64_of_int (sint d))
                    else fadd (?out ! (k - 1)) (fmul ?s (f64_of_int (sint d))))"
  proof (cases "k = 0")
    case True
    with nth show ?thesis by simp
  next
    case False
    with assms(3) len have "length (take k ?out) \<noteq> 0" by simp
    then have "take k ?out \<noteq> []" by (simp only: length_0_conv not_False_eq_True)
    moreover from False assms(3) len have "last (take k ?out) = ?out ! (k - 1)"
      by (simp add: last_take)
    ultimately show ?thesis using nth False by simp
  qed
  with chConverter_encoded [OF assms(1,2)] len assms(3) show ?thesis by simp
qed

section \<open>Claims on the delta run decoder\<close>

text \<open>
  In the theorems below a file holds a well-formed stream when the bytes from \<open>0x1800\<close>
  are \<open>encode_stream rs @ rest\<close> for runs \<open>rs\<close> with \<open>list_all wf_run rs\<close>: the
  runs, the terminator \<open>(0, 0)\<close>, and any bytes after it. \<open>entries rs\<close> are the
  entries of all runs in order, and \<open>stored_scale file\<close> is the scale factor.
\<close>

text \<open>
  Claim C1, as stated: an escaped 32-bit value is absolute only when it gives the very
  first sample; after at least one sample it is added to the previous sample. The
  decoder does not do this. In the file \<open>escape_file\<close> (scale 0.1, escaped values
  1000 and -50) the second sample is \<open>0.1 * -50 = -5.0\<close>
  (\<open>0xC014000000000000\<close>), not \<open>100.0 + 0.1 * -50 = 95.0\<close>
  (\<open>0x4057C00000000000\<close>).
\<close>

theorem escaped_value_as_delta_counterexample:
  "fst (chConverter escape_file) = Inr [0x4059000000000000, 0xC014000000000000] \<and>
   fadd 0x4059000000000000 (fmul (stored_scale escape_file) (f64_of_int (- 50))) = 0x4057C00000000000 \<and>
   (0xC014000000000000 :: float64) \<noteq> 0x4057C00000000000"
proof -
  have "stored_scale escape_file = 0x3FB999999999999A"
    by (simp only: escape_file_def delta_file_scale)
  then show ?thesis
    by (simp add: escape_decoded escape_claimed)
qed

text \<open>
  Claim C1, amended: every escaped 32-bit value is absolute. Whatever the samples
  before it, the sample of an escaped entry is \<open>scale * delta32\<close>.
\<close>

theorem escaped_value_is_absolute:
  assumes "drop 0x1800 (content file) = encode_stream rs @ rest" and "list_all wf_run rs"
    and "k < length (entries rs)" and "entries rs ! k = Escaped v"
  shows "\<exists>out. fst (chConverter file) = Inr out \<and> k < length out \<and>
           out ! k = fmul (stored_scale file) (f64_of_int (sint v))"
proof -
  let ?s = "stored_scale file"
  let ?out = "accumulate ?s [] (entries rs)"
  have len: "length ?out = length (entries rs)" by (simp add: length_accumulate)
  from accumulate_nth [OF assms(3), of ?s "[]"] assms(4)
  have "?out ! k = fmul ?s (f64_of_int (sint v))" by simp
  with chConverter_encoded [OF assms(1,2)] len assms(3) show ?thesis by simp
qed

theorem escaped_value_is_absolute_witness:
  "\<exists>out. fst (chConverter escape_file) = Inr out \<and> 1 < length out \<and>
     out ! 1 = fmul (stored_scale escape_file) (f64_of_int (sint (- 50 :: 32 word)))"
proof -
  have "drop 0x1800 (content escape_file) = encode_stream [(1, [Escaped 1000, Escaped (- 50)])] @ []"
    by (simp only: escape_file_def delta_file_stream escape_stream)
  from escaped_value_is_absolute [OF this escape_wf, of 1 "- 50"] show ?thesis
    by simp
qed

text \<open>
  Claim C2: for every direct (non-escaped) 16-bit delta, the sample is
  \<open>scale * delta16\<close> when it is the very first sample and
  \<open>previousSample + scale * delta16\<close> otherwise; and the run
  \<open>(flag = 1, runLength = 3, deltas = [10, -5, 2])\<close> with scale 0.5 decodes to
  \<open>[5.0, 2.5, 3.5]\<close>, that is \<open>0x4014000000000000\<close>, \<open>0x4004000000000000\<close>,
  \<open>0x400C000000000000\<close>.
\<close>

theorem direct_delta_rule:
  "(\<forall>file rs rest k d.
      drop 0x1800 (content file) = encode_stream rs @ rest \<longrightarrow> list_all wf_run rs \<longrightarrow>
      k < length (entries rs) \<longrightarrow> entries rs ! k = Direct d \<longrightarrow>
      (\<exists>out. fst (chConverter file) = Inr out \<and> k < length out \<and>
         out ! k = (if k = 0 then fmul (stored_scale file) (f64_of_int (sint d))
                    else fadd (out ! (k - 1)) (fmul (stored_scale file) (f64_of_int (sint d))))))
   \<and> fst (chConverter run3_file) = Inr [0x4014000000000000, 0x4004000000000000, 0x400C000000000000]"
proof (intro conjI allI impI)
  fix f :: pyfile and rs rest k d
  assume "drop 0x1800 (content f) = encode_stream rs @ rest" "list_all wf_run rs"
    "k < length (entries rs)" "entries rs ! k = Direct d"
  then show "\<exists>out. fst (chConverter f) = Inr out \<and> k < length out \<and>
         out ! k = (if k = 0 then fmul (stored_scale f) (f64_of_int (sint d))
                    else fadd (out ! (k - 1)) (fmul (stored_scale f) (f64_of_int (sint d))))"
    by (rule direct_delta_nth)
next
  show "fst (chConverter run3_file) = Inr [0x4014000000000000, 0x4004000000000000, 0x400C000000000000]"
    by (rule run3_decoded)
qed

theorem direct_delta_rule_witness:
  "\<exists>out. fst (chConverter run3_file) = Inr out \<and> 1 < length out \<and>
     out ! 1 = fadd (out ! 0) (fmul (stored_scale run3_file) (f64_of_int (sint (- 5 :: 16 word))))"
proof -
  have stream: "drop 0x1800 (content run3_file) = encode_stream [(1, [Direct 10, Direct (- 5), Direct 2])] @ []"
    by (simp only: run3_file_def delta_file_stream run3_stream)
  have "1 < length (entries [(1 :: byte, [Direct 10, Direct (- 5), Direct 2])])"
    and "entries [(1 :: byte, [Direct 10, Direct (- 5), Direct 2])] ! 1 = Direct (- 5)"
    by simp_all
  with direct_delta_rule stream run3_wf show ?thesis
    by (metis One_nat_def diff_self_eq_0 zero_neq_one)
qed

text \<open>
  Claim C4: the decoder returns normally exactly when it reaches a run header \<open>(0, 0)\<close>,
  that is when the bytes from \<open>0x1800\<close> are whole runs followed by the terminator, and
  it then returns the samples accumulated so far. On every other file it fails with
  \<open>struct.error\<close>, the exception of a read that met the end of the file; it never
  completes normally without the terminator.
\<close>

theorem chConverter_terminal:
  "case fst (chConverter file) of
     Inr out \<Rightarrow>
       \<exists>rs rest. list_all wf_run rs \<and> drop 0x1800 (content file) = encode_stream rs @ rest \<and>
         out = accumulate (stored_scale file) [] (entries rs)
   | Inl e \<Rightarrow>
       e = StructError \<and>
       \<not> (\<exists>rs rest. list_all wf_run rs \<and> drop 0x1800 (content file) = encode_stream rs @ rest)"
proof (cases "fst (chConverter file)")
  case (Inr out)
  from chConverter_Inr [OF this] obtain rs rest
    where rs: "list_all wf_run rs" "drop 0x1800 (content file) = encode_stream rs @ rest"
    by blast
  from chConverter_encoded [OF rs(2) rs(1)] Inr
  have "out = accumulate (stored_scale file) [] (entries rs)" by simp
  with rs Inr show ?thesis by auto
next
  case (Inl e)
  then have "e = StructError" by (rule chConverter_error)
  moreover have "\<not> (\<exists>rs rest. list_all wf_run rs \<and> drop 0x1800 (content file) = encode_stream rs @ rest)"
  proof
    assume "\<exists>rs rest. list_all wf_run rs \<and> drop 0x1800 (content file) = encode_stream rs @ rest"
    then obtain rs rest where "list_all wf_run rs" "drop 0x1800 (content file) = encode_stream rs @ rest"
      by blast
    from chConverter_encoded [OF this(2) this(1)] Inl show False by simp
  qed
  ultimately show ?thesis using Inl by simp
qed

theorem chConverter_terminal_witness:
  "(\<exists>rs rest. list_all wf_run rs \<and> drop 0x1800 (content run3_file) = encode_stream rs @ rest \<and>
      [0x4014000000000000, 0x4004000000000000, 0x400C000000000000] =
        accumulate (stored_scale run3_file) [] (entries rs)) \<and>
   \<not> (\<exists>rs rest. list_all wf_run rs \<and> drop 0x1800 (content truncated_file) = encode_stream rs @ rest)"
  using chConverter_terminal [of run3_file] chConverter_terminal [of truncated_file]
  by (simp add: run3_decoded truncated_decoded)

text \<open>
  Claim C8: the decoder is deterministic. Its result depends only on the bytes of the
  file: two file objects with the same bytes give the same samples, wherever their
  cursors are, and decoding the same file object a second time gives the same samples
  again.
\<close>

theorem chConverter_deterministic:
  assumes "content g = content f"
  shows "fst (chConverter g) = fst (chConverter f) \<and>
         fst (chConverter (snd (chConverter f))) = fst (chConverter f)"
proof -
  have same: "fst (chConverter g') = fst (chConverter f')" if "content g' = content f'" for g' f'
    using pyfile_eq_pos [OF that] by (simp add: chConverter_def seek_def)
  from same [OF assms] same [OF content_chConverter] show ?thesis by simp
qed

theorem chConverter_deterministic_witness:
  "fst (chConverter (run3_file\<lparr>pos := 9\<rparr>)) = fst (chConverter run3_file) \<and>
   fst (chConverter (snd (chConverter run3_file))) = fst (chConverter run3_file)"
  using chConverter_deterministic [of "run3_file\<lparr>pos := 9\<rparr>" run3_file] by simp

text \<open>
  Claim C9: for every stream that reaches the terminator, the number of samples
  returned is the sum of the run length bytes of the runs before the terminator, which
  is the number of entries: every entry, direct or escaped, gives one sample.
\<close>

theorem sample_count_is_sum_of_run_lengths:
  assumes "drop 0x1800 (content file) = encode_stream rs @ rest" and "list_all wf_run rs"
  shows "\<exists>out. fst (chConverter file) = Inr out \<and>
           length out = (\<Sum>r\<leftarrow>rs. run_length r) \<and>
           length out = length (entries rs)"
  using chConverter_encoded [OF assms] sum_run_lengths [OF assms(2)]
  by (simp add: length_accumulate)

theorem sample_count_witness:
  "\<exists>out. fst (chConverter escape_file) = Inr out \<and> length out = 2"
proof -
  have "drop 0x1800 (content escape_file) = encode_stream [(1, [Escaped 1000, Escaped (- 50)])] @ []"
    by (simp only: escape_file_def delta_file_stream escape_stream)
  from sample_count_is_sum_of_run_lengths [OF this escape_wf]
  obtain out where "fst (chConverter escape_file) = Inr out"
    and "length out = length (entries [(1 :: byte, [Escaped 1000, Escaped (- 50)])])"
    by blast
  then have "fst (chConverter escape_file) = Inr out \<and> length out = 2" by simp
  then show ?thesis ..
qed

text \<open>
  Claim C10: the flag byte of a run does not influence the samples, and a run header
  with a non-zero flag and run length zero gives no sample and does not end the
  decoding. On a well-formed stream the decoder returns the samples of the entries of
  all runs up to the terminator \<open>(0, 0)\<close>, whatever the flag bytes are and wherever
  runs of length zero stand; the flags do not occur in \<open>accumulate\<close>. A second
  well-formed stream with the same scale factor whose runs have the same entries, up
  to the flag bytes and up to runs of length zero, decodes to these same samples.
\<close>

theorem flag_byte_is_ignored:
  assumes "drop 0x1800 (content file) = encode_stream rs @ rest" and "list_all wf_run rs"
    and "drop 0x1800 (content file') = encode_stream rs' @ rest'" and "list_all wf_run rs'"
    and "stored_scale file' = stored_scale file"
    and "filter (\<lambda>es. es \<noteq> []) (map snd rs') = filter (\<lambda>es. es \<noteq> []) (map snd rs)"
  shows "fst (chConverter file) = Inr (accumulate (stored_scale file) [] (entries rs)) \<and>
         fst (chConverter file') = Inr (accumulate (stored_scale file) [] (entries rs))"
proof -
  have "entries rs' = concat (filter (\<lambda>es. es \<noteq> []) (map snd rs'))"
    by (simp only: concat_nonempty)
  also have "\<dots> = entries rs"
    by (simp only: assms(6) concat_nonempty)
  finally show ?thesis
    using chConverter_encoded [OF assms(1,2)] chConverter_encoded [OF assms(3,4)] assms(5)
    by simp
qed

theorem flag_byte_witness:
  "fst (chConverter (delta_file 0x3FE0000000000000 (encode_stream [(1, [Direct 1]), (2, [Direct 3])])))
     = Inr [0x3FE0000000000000, 0x4000000000000000] \<and>
   fst (chConverter (delta_file 0x3FE0000000000000
          (encode_stream [(7, []), (0, [Direct 1]), (255, []), (9, [Direct 3])])))
     = Inr [0x3FE0000000000000, 0x4000000000000000]"
proof -
  let ?rs = "[(1 :: byte, [Direct 1]), (2, [Direct 3])]"
  let ?rs' = "[(7 :: byte, []), (0, [Direct 1]), (255, []), (9, [Direct 3])]"
  let ?f = "delta_file 0x3FE0000000000000 (encode_stream ?rs)"
  let ?f' = "delta_file 0x3FE0000000000000 (encode_stream ?rs')"
  have stream: "drop 0x1800 (content ?f) = encode_stream ?rs @ []"
    and stream': "drop 0x1800 (content ?f') = encode_stream ?rs' @ []"
    by (simp_all only: delta_file_stream append_Nil2)
  have wf: "list_all wf_run ?rs" and wf': "list_all wf_run ?rs'"
    by (simp_all add: wf_run_def)
  have scale: "stored_scale ?f' = stored_scale ?f"
    by (simp only: delta_file_scale)
  have same: "filter (\<lambda>es. es \<noteq> []) (map snd ?rs') = filter (\<lambda>es. es \<noteq> []) (map snd ?rs)"
    by simp
  have samples: "accumulate (stored_scale ?f) [] (entries ?rs) = [0x3FE0000000000000, 0x4000000000000000]"
    by (simp add: delta_file_scale f64_eval)
  from flag_byte_is_ignored [OF stream wf stream' wf' scale same] show ?thesis
    by (simp only: samples)
qed

section \<open>The raw sample array\<close>

lemma length_le_bytes [simp]: "length (le_bytes n v) = n"
  by (induction n arbitrary: v) simp_all

lemma le_nat_le_bytes: "le_nat (le_bytes n v) = v mod 256 ^ n"
proof (induction n arbitrary: v)
  case 0
  show ?case by simp
next
  case (Suc n)
  have "unat (word_of_nat v :: byte) = v mod 256"
    by (simp add: unat_of_nat)
  moreover have "v mod 256 ^ Suc n = 256 * (v div 256 mod 256 ^ n) + v mod 256"
    using mod_mult2_eq [of v 256 "256 ^ n"] by simp
  ultimately show ?case using Suc [of "v div 256"] by simp
qed

lemma le64_unat: "word_of_nat (le_nat (le_bytes 8 (unat (r :: 64 word)))) = r"
proof -
  have "unat r < 256 ^ 8" using unsigned_less [of r, where 'a = nat] by simp
  then show ?thesis by (simp add: le_nat_le_bytes)
qed

lemma chunks8_short: "length bs < 8 \<Longrightarrow> chunks8 bs = []"
  by (simp add: chunks8.simps)

lemma chunks8_append: "length c = 8 \<Longrightarrow> chunks8 (c @ bs) = c # chunks8 bs"
  by (subst chunks8.simps) simp

lemma chunks8_sample_bytes:
  "length tail < 8 \<Longrightarrow> chunks8 (sample_bytes raws @ tail) = map (\<lambda>r. le_bytes 8 (unat r)) raws"
  by (induction raws) (simp_all add: sample_bytes_def chunks8_short chunks8_append del: le_bytes.simps)

lemma length_sample_bytes: "length (sample_bytes raws) = 8 * length raws"
  by (induction raws) (simp_all add: sample_bytes_def del: le_bytes.simps)

lemma length_chunks8: "length (chunks8 bs) = length bs div 8"
proof (induction bs rule: chunks8.induct)
  case (1 bs)
  show ?case
  proof (cases "length bs < 8")
    case True
    then show ?thesis by (simp add: chunks8_short)
  next
    case False
    with 1 have "length (chunks8 (drop 8 bs)) = (length bs - 8) div 8" by simp
    with False show ?thesis by (subst chunks8.simps) (simp add: le_div_geq)
  qed
qed

lemma nth_chunks8: "i < length bs div 8 \<Longrightarrow> chunks8 bs ! i = take 8 (drop (8 * i) bs)"
proof (induction bs arbitrary: i rule: chunks8.induct)
  case (1 bs)
  from "1.prems" have long: "\<not> length bs < 8" by (auto simp: div_eq_0_iff)
  show ?case
  proof (cases i)
    case 0
    with long show ?thesis by (subst chunks8.simps) simp
  next
    case (Suc j)
    with "1.prems" long have "j < length (drop 8 bs) div 8" by (simp add: le_div_geq)
    from "1.IH" [OF long this] Suc long show ?thesis
      by (subst chunks8.simps) (simp add: add.commute)
  qed
qed

text \<open>What \<open>_parse_data\<close> returns on a file that reaches the data.\<close>

lemma parse_data_long:
  assumes "6144 \<le> length (content fl)" and "md ''yscaling'' = Some (MFloat s)"
  shows "parse_data md fl =
           (Inr (map (\<lambda>c. fmul (word_of_nat (le_nat c)) s) (chunks8 (drop 6144 (content fl)))),
            fl\<lparr>pos := 6144 + 8 * ((length (content fl) - 6144) div 8)\<rparr>)"
proof -
  let ?items = "chunks8 (drop 6144 (content fl))"
  have n: "(int (length (content fl)) - int data_start) div 8 = int ((length (content fl) - 6144) div 8)"
    using assms(1) by (simp add: data_start_def zdiv_int)
  have len: "length ?items = (length (content fl) - 6144) div 8"
    by (simp add: length_chunks8)
  have "fromfile_d (int ((length (content fl) - 6144) div 8)) (seek data_start (seek_end fl)) =
          (map (\<lambda>c. word_of_nat (le_nat c)) ?items, fl\<lparr>pos := 6144 + 8 * ((length (content fl) - 6144) div 8)\<rparr>)"
    using len by (simp add: fromfile_d_def seek_def seek_end_def data_start_def)
  with n assms(2) show ?thesis
    by (simp add: parse_data_def tell_def seek_end_def comp_def)
qed

lemma parse_data_samples:
  assumes "content fl = header @ sample_bytes raws @ tail" and "length header = 6144"
    and "length tail < 8" and "md ''yscaling'' = Some (MFloat s)"
  shows "parse_data md fl = (Inr (map (\<lambda>r. fmul r s) raws), fl\<lparr>pos := 6144 + 8 * length raws\<rparr>)"
proof -
  have long: "6144 \<le> length (content fl)" using assms(1,2) by simp
  have "drop 6144 (content fl) = sample_bytes raws @ tail" using assms(1,2) by simp
  then have items: "chunks8 (drop 6144 (content fl)) = map (\<lambda>r. le_bytes 8 (unat r)) raws"
    using assms(3) by (simp only: chunks8_sample_bytes)
  have "length (content fl) - 6144 = 8 * length raws + length tail"
    using assms(1,2) by (simp add: length_sample_bytes)
  with assms(3) have count: "(length (content fl) - 6144) div 8 = length raws" by simp
  show ?thesis
    by (simp only: parse_data_long [of fl md s, OF long assms(4)] items count map_map comp_def le64_unat)
qed

lemma trailing_file_content:
  "content trailing_file = replicate 6144 0 @ sample_bytes [0x3FF8000000000000] @ [1, 2, 3]"
  by (simp add: trailing_file_def)

lemma trailing_file_parsed: "fst (parse_data scaling_md trailing_file) = Inr [0x4008000000000000]"
proof -
  have "scaling_md ''yscaling'' = Some (MFloat 0x4000000000000000)"
    by (simp add: scaling_md_def)
  from parse_data_samples [of trailing_file _ _ _ scaling_md, OF trailing_file_content _ _ this]
  have "fst (parse_data scaling_md trailing_file) = Inr [fmul 0x3FF8000000000000 0x4000000000000000]"
    by simp
  moreover have "fmul 0x3FF8000000000000 0x4000000000000000 = 0x4008000000000000"
    by (simp add: f64_eval)
  ultimately show ?thesis by (simp only:)
qed

section \<open>Claims on the version 179 file\<close>

text \<open>
  Claim C3, as stated: the sample count is \<open>(totalLength - 6144) / 8\<close>, and when the
  bytes after offset 6144 are not a multiple of 8 decoding fails with a truncation error
  instead of producing samples. The code does not fail. The file \<open>trailing_file\<close> has
  6155 bytes, 11 after the data start, and \<open>_parse_data\<close> returns one sample,
  \<open>2.0 * 1.5 = 3.0\<close> (\<open>0x4008000000000000\<close>).
\<close>

theorem trailing_bytes_counterexample:
  "length (content trailing_file) = 6155 \<and> (6155 - 6144) mod 8 = (3 :: nat) \<and>
   fst (parse_data scaling_md trailing_file) = Inr [0x4008000000000000]"
  by (simp add: trailing_file_parsed trailing_file_content length_sample_bytes)

text \<open>
  Claim C3, amended: on a file of at least 6144 bytes the sample count is
  \<open>(totalLength - 6144) div 8\<close>, rounded down: the whole groups of eight bytes after
  the data start are decoded, each scaled by \<open>yscaling\<close>, and up to seven bytes
  after the last whole group are ignored. No error is raised for them.
\<close>

theorem sample_count_is_floor:
  assumes "6144 \<le> length (content fl)" and "md ''yscaling'' = Some (MFloat s)"
  shows "\<exists>out. fst (parse_data md fl) = Inr out \<and>
           length out = (length (content fl) - 6144) div 8 \<and>
           (\<forall>i < length out.
              out ! i = fmul (word_of_nat (le_nat (take 8 (drop (6144 + 8 * i) (content fl))))) s)"
proof -
  let ?items = "chunks8 (drop 6144 (content fl))"
  let ?out = "map (\<lambda>c. fmul (word_of_nat (le_nat c)) s) ?items"
  have len: "length ?out = (length (content fl) - 6144) div 8"
    by (simp add: length_chunks8)
  have "?out ! i = fmul (word_of_nat (le_nat (take 8 (drop (6144 + 8 * i) (content fl))))) s"
    if "i < length ?out" for i
  proof -
    from that have "i < length (drop 6144 (content fl)) div 8" by (simp add: length_chunks8)
    from nth_chunks8 [OF this] that show ?thesis by (simp add: add.commute)
  qed
  with len parse_data_long [of fl md s, OF assms] show ?thesis by simp
qed

theorem sample_count_is_floor_witness:
  "\<exists>out. fst (parse_data scaling_md trailing_file) = Inr out \<and> length out = 1"
proof -
  have "6144 \<le> length (content trailing_file)"
    by (simp add: trailing_file_content)
  moreover have "scaling_md ''yscaling'' = Some (MFloat 0x4000000000000000)"
    by (simp add: scaling_md_def)
  ultimately obtain out where "fst (parse_data scaling_md trailing_file) = Inr out"
    and "length out = (length (content trailing_file) - 6144) div 8"
    using sample_count_is_floor [of trailing_file scaling_md] by blast
  then have "fst (parse_data scaling_md trailing_file) = Inr out \<and> length out = 1"
    by (simp add: trailing_file_content length_sample_bytes)
  then show ?thesis ..
qed

text \<open>
  Claim C6: for a file with a header of 6144 bytes followed by \<open>N\<close> little-endian
  8-byte samples, \<open>_parse_data\<close> returns exactly \<open>N\<close> samples, and each is the
  binary64 product of the stored value and \<open>metadata['yscaling']\<close>, nothing else.
\<close>

theorem parse_data_scales_every_sample:
  assumes "content fl = header @ sample_bytes raws" and "length header = 6144"
    and "md ''yscaling'' = Some (MFloat s)"
  shows "fst (parse_data md fl) = Inr (map (\<lambda>r. fmul r s) raws) \<and>
         length (map (\<lambda>r. fmul r s) raws) = length raws"
  using parse_data_samples [of fl header raws "[]" md s] assms by simp

theorem parse_data_scales_witness:
  "fst (parse_data scaling_md \<lparr>content = replicate 6144 0 @ sample_bytes [0x3FF8000000000000, 0x4000000000000000], pos = 0\<rparr>)
     = Inr [0x4008000000000000, 0x4010000000000000]"
proof -
  have "scaling_md ''yscaling'' = Some (MFloat 0x4000000000000000)"
    by (simp add: scaling_md_def)
  moreover have "map (\<lambda>r. fmul r 0x4000000000000000) [0x3FF8000000000000, 0x4000000000000000]
      = [0x4008000000000000, 0x4010000000000000]"
    by (simp add: f64_eval)
  ultimately show ?thesis
    using parse_data_scales_every_sample [of
        "\<lparr>content = replicate 6144 0 @ sample_bytes [0x3FF8000000000000, 0x4000000000000000], pos = 0\<rparr>"
        "replicate 6144 0" "[0x3FF8000000000000, 0x4000000000000000]" scaling_md "0x4000000000000000"]
    by simp
qed

text \<open>
  Claim C5: when the length-prefixed version string at the start of the header is an
  integer other than 179, \<open>_parse_header\<close> raises the \<open>ValueError\<close> for an
  unsupported version before it reads any field. The cursor is left just behind the
  version string, the metadata is unchanged, and neither the field readers nor the rest
  of the file have any part in the result.
\<close>

theorem unsupported_version_stops_header:
  assumes "drop (pos fl) (content fl) = word_of_nat (length vs) # vs @ rest" and "length vs < 256"
    and "py_int vs = Some v" and "v \<noteq> 179"
  shows "parse_header parse_utf16 strptime fl md =
           (Inl (UnsupportedVersion v), fl\<lparr>pos := pos fl + 1 + length vs\<rparr>, md)"
proof -
  let ?f1 = "fl\<lparr>pos := pos fl + 1\<rparr>"
  from assms(1) have first: "drop (pos fl) (content fl) = [word_of_nat (length vs)] @ (vs @ rest)"
    by simp
  from read_prefix [OF first, of 1] have r1: "read 1 fl = ([word_of_nat (length vs)], ?f1)"
    by simp
  have len: "unpack_B [word_of_nat (length vs) :: byte] = Inr (length vs)"
    using assms(2) by (simp add: unpack_B_def unat_of_nat)
  from drop_after [OF first, of 1] have "drop (pos ?f1) (content ?f1) = vs @ rest"
    by simp
  from read_prefix [OF this refl]
  have r2: "read (length vs) ?f1 = (vs, fl\<lparr>pos := pos fl + 1 + length vs\<rparr>)"
    by simp
  from assms(4) have "v \<notin> supported_versions"
    by (simp add: supported_versions_def)
  with r1 len r2 assms(3) show ?thesis
    by (simp add: parse_header_def unpack_s_def)
qed

theorem unsupported_version_witness:
  "parse_header (\<lambda>f. (Inl TypeError :: error + unit, f)) (\<lambda>t. Inl DateError :: error + unit)
     version_180_file Map.empty =
     (Inl (UnsupportedVersion 180), version_180_file\<lparr>pos := 4\<rparr>, Map.empty)"
proof -
  have "drop (pos version_180_file) (content version_180_file) =
      word_of_nat (length [0x31, 0x38, 0x30 :: byte]) # [0x31, 0x38, 0x30] @ [0xFF, 0xFF]"
    by (simp add: version_180_file_def)
  moreover have "py_int [0x31, 0x38, 0x30] = Some 180"
    by (simp add: py_int_def is_space_def is_digit_def digits_value_def)
  ultimately show ?thesis
    using unsupported_version_stops_header [of version_180_file "[0x31, 0x38, 0x30]" "[0xFF, 0xFF]" 180
        "\<lambda>f. (Inl TypeError :: error + unit, f)" "\<lambda>t. Inl DateError :: error + unit" Map.empty]
    by (simp add: version_180_file_def)
qed

end
